theory Spec2Isabelle
  imports Main "HOL-Library.Word" "HOL-Library.Log_Nat"
begin

unbundle bit_operations_syntax

section \<open>Machine integers and C strings\<close>

text \<open>
  A C \<^verbatim>\<open>int\<close> is a mathematical integer in the range of 32 bits. Where the source
  adds or subtracts, the result is wrapped to that range (two's complement, which is
  what the usual compilers produce for the overflow that the C standard leaves
  undefined). Shifts to the right of a signed value are arithmetic, as \<open>drop_bit\<close>
  on \<open>int\<close> is.
\<close>

definition wrap32 :: "int \<Rightarrow> int" where
  "wrap32 x = signed_take_bit 31 x"

definition INT_MAX :: int where
  "INT_MAX = 2147483647"

definition INT_MIN :: int where
  "INT_MIN = - 2147483648"

section \<open>The growable print buffer\<close>

text \<open>
  \<^verbatim>\<open>pow2gt\<close>: decrement, smear the highest set bit over all lower positions with five
  shift-and-or steps, increment.
\<close>

definition pow2gt :: "int \<Rightarrow> int" where
  "pow2gt x0 =
     (let x = wrap32 (x0 - 1);
          x = x OR drop_bit 1 x;
          x = x OR drop_bit 2 x;
          x = x OR drop_bit 4 x;
          x = x OR drop_bit 8 x;
          x = x OR drop_bit 16 x
      in wrap32 (x + 1))"

text \<open>
  The allocator hook. \<^verbatim>\<open>cJSON_malloc\<close> either fails or returns a fresh block of the
  requested size whose bytes are indeterminate: the record says for which sizes the
  call succeeds and which byte a fresh block of a given size holds at a given index.
  The \<^verbatim>\<open>int\<close> argument of the source is converted to \<^verbatim>\<open>size_t\<close>; a negative
  value becomes a size beyond any address space, and the call fails.
\<close>

record allocator =
  succeeds :: "nat \<Rightarrow> bool"
  junk :: "nat \<Rightarrow> nat \<Rightarrow> char"

definition cJSON_malloc :: "allocator \<Rightarrow> int \<Rightarrow> char list option" where
  "cJSON_malloc a sz =
     (if sz < 0 then None
      else if succeeds a (nat sz) then Some (map (junk a (nat sz)) [0..<nat sz])
      else None)"

text \<open>
  \<^verbatim>\<open>printbuffer\<close>: \<open>buffer\<close> is \<open>None\<close> for the null pointer, otherwise the bytes of
  the block it points to. Pointers into the block are indices.
\<close>

record printbuffer =
  buffer :: "char list option"
  length_pb :: int
  offset :: int

text \<open>\<^verbatim>\<open>memcpy(newbuffer, p->buffer, n)\<close>: the first \<open>n\<close> bytes of the new block are
  replaced by those of the old one.\<close>

definition memcpy :: "char list \<Rightarrow> char list \<Rightarrow> nat \<Rightarrow> char list" where
  "memcpy dst src n = take n src @ drop n dst"

text \<open>
  \<^verbatim>\<open>ensure\<close> returns the buffer state and the pointer (an index into the block), or
  \<open>None\<close> for the null pointer.
\<close>

definition ensure :: "allocator \<Rightarrow> printbuffer \<Rightarrow> int \<Rightarrow> printbuffer \<times> nat option" where
  "ensure a p needed0 =
     (case buffer p of
        None \<Rightarrow> (p, None)
      | Some old \<Rightarrow>
          let needed = wrap32 (needed0 + offset p) in
          if needed \<le> length_pb p then (p, Some (nat (offset p)))
          else
            let newsize = pow2gt needed in
            (case cJSON_malloc a newsize of
               None \<Rightarrow> (p\<lparr>length_pb := 0, buffer := None\<rparr>, None)
             | Some newbuffer \<Rightarrow>
                 (p\<lparr>length_pb := newsize,
                    buffer := Some (memcpy newbuffer old (nat (length_pb p)))\<rparr>,
                  Some (nat (offset p)))))"

text \<open>The five smearing steps of \<^verbatim>\<open>pow2gt\<close> on their own.\<close>

definition smear :: "int \<Rightarrow> int" where
  "smear y = (let x = y;
          x = x OR drop_bit 1 x;
          x = x OR drop_bit 2 x;
          x = x OR drop_bit 4 x;
          x = x OR drop_bit 8 x;
          x = x OR drop_bit 16 x in x)"

text \<open>An allocator that always succeeds and fills fresh blocks with \<open>x\<close>.\<close>

definition test_alloc :: allocator where
  "test_alloc = \<lparr>succeeds = (\<lambda>_. True), junk = (\<lambda>_ _. CHR ''x'')\<rparr>"

section \<open>C strings\<close>

text \<open>
  A text is the list of the bytes of a character array up to, and without, its final
  NUL: the end of the list is the terminator. A pointer into the text is the list of
  the bytes from that position on. Reading at the end of the list yields NUL; moving a
  pointer further than the terminator and using it is outside the array, and the
  model answers \<open>Undefined\<close> (the C program has undefined behaviour there). A parse
  error of the source is \<open>Syntax ep\<close>, with the error pointer \<^verbatim>\<open>ep\<close> it sets.
\<close>

datatype error = Syntax "char list" | Undefined

definition NUL :: char where "NUL = CHR 0x00"
definition QUOTE :: char where "QUOTE = CHR 0x22"
definition BSLASH :: char where "BSLASH = CHR 0x5C"

fun deref :: "char list \<Rightarrow> char" where
  "deref [] = NUL"
| "deref (c # _) = c"

text \<open>\<open>advance k ptr\<close> is \<^verbatim>\<open>ptr + k\<close>, defined up to the terminator.\<close>

definition advance :: "nat \<Rightarrow> char list \<Rightarrow> error + char list" where
  "advance k ptr = (if k \<le> length ptr then Inr (drop k ptr) else Inl Undefined)"

section \<open>The string codec\<close>

text \<open>
  \<^verbatim>\<open>parse_hex4\<close>: four times the same test of one character; the first character
  that is no hexadecimal digit ends the function with 0 (the terminator is none, so
  the function never reads past it).
\<close>

definition hexval :: "char \<Rightarrow> nat option" where
  "hexval c =
     (let n = (of_char c :: nat) in
      if 48 \<le> n \<and> n \<le> 57 then Some (n - 48)
      else if 65 \<le> n \<and> n \<le> 70 then Some (10 + n - 65)
      else if 97 \<le> n \<and> n \<le> 102 then Some (10 + n - 97)
      else None)"

definition parse_hex4 :: "char list \<Rightarrow> nat" where
  "parse_hex4 str =
     (case hexval (deref str) of None \<Rightarrow> 0 | Some d0 \<Rightarrow>
      let h = push_bit 4 d0; str = tl str in
      case hexval (deref str) of None \<Rightarrow> 0 | Some d1 \<Rightarrow>
      let h = push_bit 4 (h + d1); str = tl str in
      case hexval (deref str) of None \<Rightarrow> 0 | Some d2 \<Rightarrow>
      let h = push_bit 4 (h + d2); str = tl str in
      case hexval (deref str) of None \<Rightarrow> 0 | Some d3 \<Rightarrow> h + d3)"

text \<open>
  The UTF-8 encoder at the end of the \<^verbatim>\<open>\u\<close> case: \<open>len\<close> by the magnitude of the
  code point, the continuation bytes from the last to the first, then the first byte
  with its marker bits. Storing into a \<^verbatim>\<open>char\<close> keeps the low eight bits.
\<close>

definition firstByteMark :: "nat list" where
  "firstByteMark = [0x00, 0x00, 0xC0, 0xE0, 0xF0, 0xF8, 0xFC]"

definition cont_byte :: "nat \<Rightarrow> char" where
  "cont_byte uc = char_of ((uc OR 0x80) AND 0xBF)"

definition lead_byte :: "nat \<Rightarrow> nat \<Rightarrow> char" where
  "lead_byte len uc = char_of (uc OR firstByteMark ! len)"

definition utf8_encode :: "nat \<Rightarrow> char list" where
  "utf8_encode uc =
     (let len = (if uc < 0x80 then 1 else if uc < 0x800 then 2 else if uc < 0x10000 then 3 else 4 :: nat) in
      if len = 4 then
        [lead_byte len (drop_bit 18 uc), cont_byte (drop_bit 12 uc), cont_byte (drop_bit 6 uc), cont_byte uc]
      else if len = 3 then
        [lead_byte len (drop_bit 12 uc), cont_byte (drop_bit 6 uc), cont_byte uc]
      else if len = 2 then
        [lead_byte len (drop_bit 6 uc), cont_byte uc]
      else [lead_byte len uc])"

text \<open>
  The first loop of \<^verbatim>\<open>parse_string\<close>, which counts how many bytes to allocate: every
  character counts one, and the character after a backslash is skipped.
\<close>

function string_length_pass :: "char list \<Rightarrow> nat \<Rightarrow> error + nat" where
  "string_length_pass ptr len =
     (if deref ptr = QUOTE \<or> deref ptr = NUL then Inr len
      else if deref ptr = BSLASH then
        (case advance 2 ptr of
           Inl e \<Rightarrow> Inl e
         | Inr ptr' \<Rightarrow> string_length_pass ptr' (len + 1))
      else string_length_pass (tl ptr) (len + 1))"
  by pat_completeness auto
termination
proof (relation "measure (\<lambda>(ptr, len). length ptr)")
  show "wf (measure (\<lambda>(ptr :: char list, len :: nat). length ptr))" by simp
next
  fix ptr ptr' :: "char list" and len :: nat
  assume "\<not> (deref ptr = QUOTE \<or> deref ptr = NUL)" "advance 2 ptr = Inr ptr'"
  then show "((ptr', len + 1), (ptr, len)) \<in> measure (\<lambda>(ptr, len). length ptr)"
    by (cases ptr) (auto simp: advance_def split: if_splits)
next
  fix ptr :: "char list" and len :: nat
  assume "\<not> (deref ptr = QUOTE \<or> deref ptr = NUL)"
  then show "((tl ptr, len + 1), (ptr, len)) \<in> measure (\<lambda>(ptr, len). length ptr)"
    by (cases ptr) simp_all
qed

text \<open>
  The \<^verbatim>\<open>case 'u'\<close> of the second loop, entered with the pointer at the \<open>u\<close>. It
  returns the bytes written and the pointer it leaves for the \<^verbatim>\<open>ptr++\<close> that
  follows the \<^verbatim>\<open>switch\<close>.
\<close>

definition escape_u :: "char list \<Rightarrow> error + (char list \<times> char list)" where
  "escape_u ptr0 =
     (let uc = parse_hex4 (tl ptr0) in
      case advance 4 ptr0 of
        Inl e \<Rightarrow> Inl e
      | Inr ptr \<Rightarrow>
          if (0xDC00 \<le> uc \<and> uc \<le> 0xDFFF) \<or> uc = 0 then Inr ([], ptr)
          else if 0xD800 \<le> uc \<and> uc \<le> 0xDBFF then
            (case advance 1 ptr of
               Inl e \<Rightarrow> Inl e
             | Inr p1 \<Rightarrow>
                 if deref p1 \<noteq> BSLASH then Inr ([], ptr)
                 else
                   (case advance 2 ptr of
                      Inl e \<Rightarrow> Inl e
                    | Inr p2 \<Rightarrow>
                        if deref p2 \<noteq> CHR ''u'' then Inr ([], ptr)
                        else
                          (case advance 3 ptr of
                             Inl e \<Rightarrow> Inl e
                           | Inr p3 \<Rightarrow>
                               let uc2 = parse_hex4 p3 in
                               (case advance 6 ptr of
                                  Inl e \<Rightarrow> Inl e
                                | Inr ptr \<Rightarrow>
                                    if uc2 < 0xDC00 \<or> uc2 > 0xDFFF then Inr ([], ptr)
                                    else
                                      Inr (utf8_encode
                                             (0x10000 + (push_bit 10 (uc AND 0x3FF) OR (uc2 AND 0x3FF))),
                                           ptr)))))
          else Inr (utf8_encode uc, ptr))"

text \<open>The \<^verbatim>\<open>switch\<close> on the character after a backslash, and the \<^verbatim>\<open>ptr++\<close> after it.\<close>

definition escape_step :: "char list \<Rightarrow> error + (char list \<times> char list)" where
  "escape_step ptr =
     (case
        (if deref ptr = CHR ''b'' then Inr ([CHR 0x08], ptr)
         else if deref ptr = CHR ''f'' then Inr ([CHR 0x0C], ptr)
         else if deref ptr = CHR ''n'' then Inr ([CHR 0x0A], ptr)
         else if deref ptr = CHR ''r'' then Inr ([CHR 0x0D], ptr)
         else if deref ptr = CHR ''t'' then Inr ([CHR 0x09], ptr)
         else if deref ptr = CHR ''u'' then escape_u ptr
         else Inr ([deref ptr], ptr))
      of
        Inl e \<Rightarrow> Inl e
      | Inr (bytes, ptr') \<Rightarrow>
          (case advance 1 ptr' of
             Inl e \<Rightarrow> Inl e
           | Inr ptr'' \<Rightarrow> Inr (bytes, ptr'')))"

text \<open>The second loop of \<^verbatim>\<open>parse_string\<close>: the bytes written and the pointer at its end.\<close>

function unescape :: "char list \<Rightarrow> error + (char list \<times> char list)" where
  "unescape ptr =
     (if deref ptr = QUOTE \<or> deref ptr = NUL then Inr ([], ptr)
      else if deref ptr \<noteq> BSLASH then
        (case unescape (tl ptr) of
           Inl e \<Rightarrow> Inl e
         | Inr (out, end) \<Rightarrow> Inr (deref ptr # out, end))
      else
        (case escape_step (tl ptr) of
           Inl e \<Rightarrow> Inl e
         | Inr (bytes, ptr') \<Rightarrow>
             (case unescape ptr' of
                Inl e \<Rightarrow> Inl e
              | Inr (out, end) \<Rightarrow> Inr (bytes @ out, end))))"
  by pat_completeness auto
termination
proof (relation "measure length")
  show "wf (measure length)" by simp
next
  fix ptr :: "char list"
  assume "\<not> (deref ptr = QUOTE \<or> deref ptr = NUL)"
  then have "ptr \<noteq> []" by (auto simp: NUL_def)
  then show "(tl ptr, ptr) \<in> measure length" by (cases ptr) simp_all
next
  fix ptr :: "char list" and x2 and x y
  assume "escape_step (tl ptr) = Inr x2" "(x, y) = x2"
  then have step: "escape_step (tl ptr) = Inr (x, y)" by simp
  have adv: "length q = length p - k \<and> k \<le> length p" if "advance k p = Inr q"
    for k and p q :: "char list"
    using that by (auto simp: advance_def split: if_splits)
  have esc_u: "length q \<le> length p" if "escape_u p = Inr (bs, q)"
    for p bs q
    using that
    by (auto simp: escape_u_def Let_def split: sum.splits if_splits dest!: adv)
  have "length y < length (tl ptr)"
    using step unfolding escape_step_def
    by (auto split: sum.splits if_splits prod.splits dest!: adv esc_u)
  then show "(y, ptr) \<in> measure length" by (cases ptr) simp_all
qed

declare unescape.simps [simp del] string_length_pass.simps [simp del]

text \<open>
  \<^verbatim>\<open>parse_string\<close> returns the decoded string and the pointer after the closing
  quote. The block for the result has \<open>len + 1\<close> bytes, \<open>len\<close> from the first loop;
  the second loop writes the decoded bytes and a NUL without looking at \<open>len\<close>, so
  more than \<open>len\<close> decoded bytes are written past the block. (The allocation itself is
  taken to succeed.)
\<close>

definition parse_string :: "char list \<Rightarrow> error + (char list \<times> char list)" where
  "parse_string str =
     (if deref str \<noteq> QUOTE then Inl (Syntax str)
      else
        (case string_length_pass (tl str) 0 of
           Inl e \<Rightarrow> Inl e
         | Inr len \<Rightarrow>
             (case unescape (tl str) of
                Inl e \<Rightarrow> Inl e
              | Inr (out, ptr) \<Rightarrow>
                  if len < length out then Inl Undefined
                  else Inr (out, if deref ptr = QUOTE then tl ptr else ptr))))"

text \<open>
  \<^verbatim>\<open>print_string_ptr\<close> without a print buffer. The first loop sets \<open>flag\<close> when a
  byte needs an escape; \<^verbatim>\<open>*ptr>0 && *ptr<32\<close> is a test on a \<^verbatim>\<open>char\<close>, which a byte
  above 127 fails whether \<^verbatim>\<open>char\<close> is signed or not. The argument is a text, not the
  null pointer (which the first loop of the source would dereference).
\<close>

definition is_special :: "char \<Rightarrow> bool" where
  "is_special c = ((0 < (of_char c :: nat) \<and> (of_char c :: nat) < 32) \<or> c = QUOTE \<or> c = BSLASH)"

fun special_flag :: "char list \<Rightarrow> bool" where
  "special_flag [] = False"
| "special_flag (c # cs) = (if c = NUL then False else (is_special c \<or> special_flag cs))"

text \<open>What \<^verbatim>\<open>strcpy\<close> and \<^verbatim>\<open>strlen\<close> see of a text: the bytes before the first NUL.\<close>

definition c_str :: "char list \<Rightarrow> char list" where
  "c_str s = takeWhile (\<lambda>c. c \<noteq> NUL) s"

text \<open>\<^verbatim>\<open>sprintf(ptr2,"u%04x",token)\<close>: four lower-case hexadecimal digits.\<close>

definition hexdigit :: "nat \<Rightarrow> char" where
  "hexdigit n = (if n < 10 then char_of (48 + n) else char_of (87 + n))"

definition sprintf_u04x :: "char \<Rightarrow> char list" where
  "sprintf_u04x token =
     (let n = (of_char token :: nat) in
      [CHR ''u'', hexdigit (n div 4096 mod 16), hexdigit (n div 256 mod 16),
       hexdigit (n div 16 mod 16), hexdigit (n mod 16)])"

definition escape_char :: "char \<Rightarrow> char list" where
  "escape_char token =
     (if token = BSLASH then [BSLASH]
      else if token = QUOTE then [QUOTE]
      else if token = CHR 0x08 then ''b''
      else if token = CHR 0x0C then ''f''
      else if token = CHR 0x0A then ''n''
      else if token = CHR 0x0D then ''r''
      else if token = CHR 0x09 then ''t''
      else sprintf_u04x token)"

text \<open>The loop that computes \<open>len\<close>, the number of bytes between the quotes.\<close>

fun escape_length :: "char list \<Rightarrow> nat" where
  "escape_length [] = 0"
| "escape_length (token # cs) =
     (if token = NUL then 0
      else (if token \<in> {QUOTE, BSLASH, CHR 0x08, CHR 0x0C, CHR 0x0A, CHR 0x0D, CHR 0x09} then 2
            else if (of_char token :: nat) < 32 then 6 else 1) + escape_length cs)"

fun escape_loop :: "char list \<Rightarrow> char list" where
  "escape_loop [] = []"
| "escape_loop (c # cs) =
     (if c = NUL then []
      else if 31 < (of_char c :: nat) \<and> c \<noteq> QUOTE \<and> c \<noteq> BSLASH then c # escape_loop cs
      else BSLASH # escape_char c @ escape_loop cs)"

definition print_string_ptr :: "char list \<Rightarrow> char list" where
  "print_string_ptr str =
     (if \<not> special_flag str then QUOTE # c_str str @ [QUOTE]
      else QUOTE # escape_loop str @ [QUOTE])"

section \<open>Double-precision numbers\<close>

text \<open>
  A \<^verbatim>\<open>double\<close> is a finite value, given exactly as a rational number, an infinity or
  a NaN. The two zeros are one value (the source never tells them apart). Arithmetic
  is IEEE 754 binary64 in its default mode: the exact result rounded to the nearest
  representable value, ties to the even significand, with gradual underflow and
  overflow to infinity.
\<close>

datatype double = Finite rat | PInf | NInf | NaN

definition pow2 :: "int \<Rightarrow> rat" where
  "pow2 k = (if 0 \<le> k then 2 ^ nat k else 1 / 2 ^ nat (- k))"

definition pow10 :: "int \<Rightarrow> rat" where
  "pow10 k = (if 0 \<le> k then 10 ^ nat k else 1 / 10 ^ nat (- k))"

text \<open>Rounding to the nearest integer, ties to even.\<close>

definition round_even :: "rat \<Rightarrow> int" where
  "round_even q =
     (let f = \<lfloor>q\<rfloor>; r = q - of_int f in
      if r < 1 / 2 then f else if 1 / 2 < r then f + 1 else if even f then f else f + 1)"

text \<open>
  The binary exponent of a non-zero rational \<open>q\<close>: the \<open>e\<close> with
  \<open>2\<^sup>e \<le> \<bar>q\<bar> < 2\<^sup>e\<^sup>+\<^sup>1\<close>, found from the bit lengths of numerator and denominator.
\<close>

definition binexp :: "rat \<Rightarrow> int" where
  "binexp q =
     (let (a, b) = quotient_of \<bar>q\<bar>; k = bitlen a - bitlen b in
      if pow2 k \<le> \<bar>q\<bar> then k else k - 1)"

text \<open>
  Rounding a rational to binary64: 53 significant bits, the exponent not below that
  of the smallest normal number (\<open>-1022\<close>, which gives the subnormal spacing
  \<open>2\<^sup>-\<^sup>1\<^sup>0\<^sup>7\<^sup>4\<close>), infinity from \<open>2\<^sup>1\<^sup>0\<^sup>2\<^sup>4\<close> on.
\<close>

definition round_double :: "rat \<Rightarrow> double" where
  "round_double q =
     (if q = 0 then Finite 0
      else
        let e = max (binexp q) (- 1022);
            ulp = pow2 (e - 52);
            r = of_int (round_even (q / ulp)) * ulp
        in if pow2 1024 \<le> \<bar>r\<bar> then (if 0 < q then PInf else NInf) else Finite r)"



definition dneg :: "double \<Rightarrow> double" where
  "dneg x = (case x of Finite a \<Rightarrow> Finite (- a) | PInf \<Rightarrow> NInf | NInf \<Rightarrow> PInf | NaN \<Rightarrow> NaN)"

definition dfabs :: "double \<Rightarrow> double" where
  "dfabs x = (case x of Finite a \<Rightarrow> Finite \<bar>a\<bar> | PInf \<Rightarrow> PInf | NInf \<Rightarrow> PInf | NaN \<Rightarrow> NaN)"

definition dfloor :: "double \<Rightarrow> double" where
  "dfloor x = (case x of Finite a \<Rightarrow> Finite (of_int \<lfloor>a\<rfloor>) | _ \<Rightarrow> x)"

fun dadd :: "double \<Rightarrow> double \<Rightarrow> double" where
  "dadd (Finite a) (Finite b) = round_double (a + b)"
| "dadd NaN _ = NaN"
| "dadd _ NaN = NaN"
| "dadd PInf NInf = NaN"
| "dadd NInf PInf = NaN"
| "dadd PInf _ = PInf"
| "dadd _ PInf = PInf"
| "dadd NInf _ = NInf"
| "dadd _ NInf = NInf"

definition dsub :: "double \<Rightarrow> double \<Rightarrow> double" where
  "dsub x y = dadd x (dneg y)"

fun dmul :: "double \<Rightarrow> double \<Rightarrow> double" where
  "dmul (Finite a) (Finite b) = round_double (a * b)"
| "dmul NaN _ = NaN"
| "dmul _ NaN = NaN"
| "dmul (Finite a) y = (if a = 0 then NaN else if (0 < a) = (y = PInf) then PInf else NInf)"
| "dmul x (Finite b) = (if b = 0 then NaN else if (0 < b) = (x = PInf) then PInf else NInf)"
| "dmul x y = (if x = y then PInf else NInf)"

fun dle :: "double \<Rightarrow> double \<Rightarrow> bool" where
  "dle (Finite a) (Finite b) = (a \<le> b)"
| "dle NaN _ = False"
| "dle _ NaN = False"
| "dle NInf _ = True"
| "dle _ PInf = True"
| "dle _ _ = False"

fun dlt :: "double \<Rightarrow> double \<Rightarrow> bool" where
  "dlt (Finite a) (Finite b) = (a < b)"
| "dlt NaN _ = False"
| "dlt _ NaN = False"
| "dlt PInf _ = False"
| "dlt _ NInf = False"
| "dlt _ _ = True"

text \<open>
  The conversions between \<^verbatim>\<open>int\<close> and \<^verbatim>\<open>double\<close>. \<^verbatim>\<open>(int)n\<close> truncates towards
  zero; for a value that does not fit (which C leaves undefined) the model takes the
  result of the x86 conversion instruction, \<^verbatim>\<open>INT_MIN\<close>.
\<close>

definition double_of_int :: "int \<Rightarrow> double" where
  "double_of_int i = round_double (of_int i)"

definition int_of_double :: "double \<Rightarrow> int" where
  "int_of_double x =
     (case x of
        Finite a \<Rightarrow>
          (let t = (if 0 \<le> a then \<lfloor>a\<rfloor> else \<lceil>a\<rceil>) in
           if INT_MIN \<le> t \<and> t \<le> INT_MAX then t else INT_MIN)
      | _ \<Rightarrow> INT_MIN)"

definition DBL_EPSILON :: double where
  "DBL_EPSILON = Finite (pow2 (- 52))"

text \<open>\<^verbatim>\<open>pow(10.0, y)\<close> for a whole \<open>y\<close>, taken to be correctly rounded.\<close>

definition pow_10 :: "int \<Rightarrow> double" where
  "pow_10 y = round_double (pow10 y)"

section \<open>The number codec\<close>

text \<open>
  \<^verbatim>\<open>parse_number\<close>. The three loops over digits are recursive functions on the text;
  each \<^verbatim>\<open>do ... while\<close> is entered only at a digit, so testing the first character
  again changes nothing. \<open>subscale\<close> is an \<^verbatim>\<open>int\<close> and wraps. The function returns
  \<open>valueint\<close>, \<open>valuedouble\<close> and the pointer to the first character it left.
\<close>

definition is_digit :: "char \<Rightarrow> bool" where
  "is_digit c = (48 \<le> (of_char c :: nat) \<and> (of_char c :: nat) \<le> 57)"


definition digit_value :: "char \<Rightarrow> double" where
  "digit_value c = Finite (of_nat (of_char c - 48))"

fun digits_loop :: "char list \<Rightarrow> double \<Rightarrow> double \<times> char list" where
  "digits_loop [] n = (n, [])"
| "digits_loop (c # num) n =
     (if is_digit c then digits_loop num (dadd (dmul n (Finite 10)) (digit_value c))
      else (n, c # num))"

fun fraction_loop :: "char list \<Rightarrow> double \<Rightarrow> int \<Rightarrow> double \<times> int \<times> char list" where
  "fraction_loop [] n scale = (n, scale, [])"
| "fraction_loop (c # num) n scale =
     (if is_digit c then fraction_loop num (dadd (dmul n (Finite 10)) (digit_value c)) (scale - 1)
      else (n, scale, c # num))"

fun exponent_loop :: "char list \<Rightarrow> int \<Rightarrow> int \<times> char list" where
  "exponent_loop [] subscale = (subscale, [])"
| "exponent_loop (c # num) subscale =
     (if is_digit c then exponent_loop num (wrap32 (wrap32 (subscale * 10) + (int (of_char c) - 48)))
      else (subscale, c # num))"

definition parse_number :: "char list \<Rightarrow> (int \<times> double) \<times> char list" where
  "parse_number num0 =
     (let (sign, num) = (if deref num0 = CHR ''-'' then (Finite (- 1), tl num0) else (Finite 1, num0));
          num = (if deref num = CHR ''0'' then tl num else num);
          (n, num) = (if 49 \<le> (of_char (deref num) :: nat) \<and> (of_char (deref num) :: nat) \<le> 57
                      then digits_loop num (Finite 0) else (Finite 0, num));
          (n, scale, num) = (if deref num = CHR ''.'' \<and> is_digit (deref (tl num))
                             then fraction_loop (tl num) n 0 else (n, 0, num));
          (subscale, signsubscale, num) =
             (if deref num = CHR ''e'' \<or> deref num = CHR ''E'' then
                (let num = tl num;
                     (signsubscale, num) =
                        (if deref num = CHR ''+'' then (1, tl num)
                         else if deref num = CHR ''-'' then (- 1, tl num)
                         else (1, num));
                     (subscale, num) = exponent_loop num 0
                 in (subscale, signsubscale, num))
              else (0, 1, num));
          n = dmul (dmul sign n) (pow_10 (scale + wrap32 (subscale * signsubscale)))
      in ((int_of_double n, n), num))"

text \<open>
  The conversions of \<^verbatim>\<open>sprintf\<close> that \<^verbatim>\<open>print_number\<close> uses, as the C library
  defines them: \<^verbatim>\<open>%d\<close>, and for a \<^verbatim>\<open>double\<close> the exact value rounded (ties to
  even) to no decimals (\<^verbatim>\<open>%.0f\<close>), to six decimals (\<^verbatim>\<open>%f\<close>), or to six decimals
  after the first significant digit with a decimal exponent of at least two digits
  (\<^verbatim>\<open>%e\<close>). An infinity prints as \<^verbatim>\<open>inf\<close> or \<^verbatim>\<open>-inf\<close>. A NaN prints as \<^verbatim>\<open>nan\<close>; the
  C library writes \<^verbatim>\<open>-nan\<close> for a NaN whose sign bit is set, which the one NaN of
  this model does not tell apart.
\<close>

definition digit_char :: "int \<Rightarrow> char" where
  "digit_char n = char_of (48 + n)"

function decimal :: "int \<Rightarrow> char list" where
  "decimal n = (if n < 10 then [digit_char n] else decimal (n div 10) @ [digit_char (n mod 10)])"
  by pat_completeness auto
termination
  by (relation "measure nat") auto

declare decimal.simps [simp del]

definition six_digits :: "int \<Rightarrow> char list" where
  "six_digits n = map (\<lambda>k. digit_char (n div 10 ^ k mod 10)) [5, 4, 3, 2, 1, 0]"

definition sprintf_d :: "int \<Rightarrow> char list" where
  "sprintf_d i = (if i < 0 then CHR ''-'' # decimal (- i) else decimal i)"

definition sign_prefix :: "rat \<Rightarrow> char list" where
  "sign_prefix q = (if q < 0 then ''-'' else [])"

definition sprintf_0f :: "double \<Rightarrow> char list" where
  "sprintf_0f d =
     (case d of
        Finite q \<Rightarrow> sign_prefix q @ decimal (round_even \<bar>q\<bar>)
      | PInf \<Rightarrow> ''inf'' | NInf \<Rightarrow> ''-inf'' | NaN \<Rightarrow> ''nan'')"

definition sprintf_f :: "double \<Rightarrow> char list" where
  "sprintf_f d =
     (case d of
        Finite q \<Rightarrow>
          (let r = round_even (\<bar>q\<bar> * 10 ^ 6) in
           sign_prefix q @ decimal (r div 10 ^ 6) @ ''.'' @ six_digits (r mod 10 ^ 6))
      | PInf \<Rightarrow> ''inf'' | NInf \<Rightarrow> ''-inf'' | NaN \<Rightarrow> ''nan'')"

definition decexp :: "rat \<Rightarrow> int" where
  "decexp q =
     (let (a, b) = quotient_of \<bar>q\<bar>;
          k = int (length (decimal a)) - int (length (decimal b))
      in if pow10 k \<le> \<bar>q\<bar> then k else k - 1)"

definition sprintf_e :: "double \<Rightarrow> char list" where
  "sprintf_e d =
     (case d of
        Finite q \<Rightarrow>
          (if q = 0 then ''0.000000e+00''
           else
             let x = decexp q;
                 m = round_even (\<bar>q\<bar> / pow10 x * 10 ^ 6);
                 (m, x) = (if 10 ^ 7 \<le> m then (m div 10, x + 1) else (m, x));
                 xs = decimal \<bar>x\<bar>
             in sign_prefix q @ decimal (m div 10 ^ 6) @ ''.'' @ six_digits (m mod 10 ^ 6) @ ''e''
                @ (if x < 0 then ''-'' else ''+'') @ (if length xs < 2 then ''0'' @ xs else xs))
      | PInf \<Rightarrow> ''inf'' | NInf \<Rightarrow> ''-inf'' | NaN \<Rightarrow> ''nan'')"

text \<open>
  \<^verbatim>\<open>print_number\<close> without a print buffer (the three allocations are taken to
  succeed). The literals \<^verbatim>\<open>1.0e60\<close>, \<^verbatim>\<open>1.0e-6\<close> and \<^verbatim>\<open>1.0e9\<close> are the doubles
  nearest to these numbers.
\<close>

definition print_number :: "int \<Rightarrow> double \<Rightarrow> char list" where
  "print_number valueint d =
     (if d = Finite 0 then ''0''
      else if dle (dfabs (dsub (double_of_int valueint) d)) DBL_EPSILON
              \<and> dle d (double_of_int INT_MAX) \<and> dle (double_of_int INT_MIN) d
        then sprintf_d valueint
      else if dle (dfabs (dsub (dfloor d) d)) DBL_EPSILON \<and> dlt (dfabs d) (round_double (10 ^ 60))
        then sprintf_0f d
      else if dlt (dfabs d) (round_double (1 / 10 ^ 6)) \<or> dlt (round_double (10 ^ 9)) (dfabs d)
        then sprintf_e d
      else sprintf_f d)"

section \<open>The notations of a printed number\<close>

text \<open>
  The shapes of the text that \<^verbatim>\<open>print_number\<close> writes. A plain integer is an optional
  minus sign and decimal digits; fixed-point notation is an optional minus sign,
  digits, a point and six digits; exponential notation is a fixed-point mantissa,
  \<open>e\<close>, a sign and at least two digits.
\<close>

definition digit_string :: "char list \<Rightarrow> bool" where
  "digit_string s = (s \<noteq> [] \<and> list_all is_digit s)"

definition without_sign :: "char list \<Rightarrow> char list" where
  "without_sign s = (if deref s = CHR ''-'' then tl s else s)"

definition plain_integer :: "char list \<Rightarrow> bool" where
  "plain_integer s = digit_string (without_sign s)"

definition fixed_point :: "char list \<Rightarrow> bool" where
  "fixed_point s =
     (let u = without_sign s; w = takeWhile (\<lambda>c. c \<noteq> CHR ''.'') u; f = drop (Suc (length w)) u
      in u = w @ CHR ''.'' # f \<and> digit_string w \<and> digit_string f \<and> length f = 6)"

definition exponential :: "char list \<Rightarrow> bool" where
  "exponential s =
     (let m = takeWhile (\<lambda>c. c \<noteq> CHR ''e'') s; x = drop (Suc (length m)) s
      in s = m @ CHR ''e'' # x \<and> fixed_point m \<and> (deref x = CHR ''+'' \<or> deref x = CHR ''-'')
         \<and> digit_string (tl x) \<and> 2 \<le> length (tl x))"

text \<open>
  The tests of \<^verbatim>\<open>print_number\<close>, named: \<^verbatim>\<open>fabs(((double)item->valueint)-d)<=DBL_EPSILON\<close>,
  \<^verbatim>\<open>d<=INT_MAX && d>=INT_MIN\<close>, \<^verbatim>\<open>fabs(floor(d)-d)<=DBL_EPSILON\<close>, and the comparisons
  of \<^verbatim>\<open>fabs(d)\<close> with a literal.
\<close>

definition cache_agrees :: "int \<Rightarrow> double \<Rightarrow> bool" where
  "cache_agrees valueint d = dle (dfabs (dsub (double_of_int valueint) d)) DBL_EPSILON"

definition in_int_range :: "double \<Rightarrow> bool" where
  "in_int_range d = (dle d (double_of_int INT_MAX) \<and> dle (double_of_int INT_MIN) d)"

definition near_floor :: "double \<Rightarrow> bool" where
  "near_floor d = dle (dfabs (dsub (dfloor d) d)) DBL_EPSILON"

definition magnitude_below :: "double \<Rightarrow> rat \<Rightarrow> bool" where
  "magnitude_below d literal = dlt (dfabs d) (round_double literal)"

definition magnitude_above :: "double \<Rightarrow> rat \<Rightarrow> bool" where
  "magnitude_above d literal = dlt (round_double literal) (dfabs d)"

text \<open>
  A finite double, as opposed to an infinity or a NaN, and a whole-valued one: a
  finite double equal to its floor.
\<close>

definition finite_value :: "double \<Rightarrow> bool" where
  "finite_value d = (case d of Finite q \<Rightarrow> True | _ \<Rightarrow> False)"

definition whole_valued :: "double \<Rightarrow> bool" where
  "whole_valued d = (case d of Finite q \<Rightarrow> q = of_int \<lfloor>q\<rfloor> | _ \<Rightarrow> False)"

section \<open>The value tree\<close>

text \<open>
  A node of the tree with what parser and serializer read and write of it: the kind,
  \<open>valueint\<close> and \<open>valuedouble\<close> of a number, \<open>valuestring\<close> of a string, and the
  children of an array or object in the order of the \<^verbatim>\<open>next\<close> links; a child of an
  object comes with its key, the field \<^verbatim>\<open>string\<close>. (That \<^verbatim>\<open>parse_value\<close> also sets \<open>valueint\<close>
  of a \<^verbatim>\<open>true\<close> node to 1 is not kept.)
\<close>

datatype cJSON =
    cJSON_NULL
  | cJSON_False
  | cJSON_True
  | cJSON_Number int double
  | cJSON_String "char list"
  | cJSON_Array "cJSON list"
  | cJSON_Object "(char list \<times> cJSON) list"

section \<open>The parser\<close>

definition skip :: "char list \<Rightarrow> char list" where
  "skip inp = dropWhile (\<lambda>c. c \<noteq> NUL \<and> (of_char c :: nat) \<le> 32) inp"

text \<open>
  The recursive descent. \<^verbatim>\<open>parse_array\<close> and \<^verbatim>\<open>parse_object\<close> are split into the
  part before their \<^verbatim>\<open>while\<close> loop and the loop; \<open>parse_member\<close> is the key, the
  colon and the value of one member, which \<^verbatim>\<open>parse_object\<close> has twice. A node
  allocation is taken to succeed. The tests \<open>length end < length value\<close> on what a
  recursive call returns are there for the termination proof; they never fail
  (lemmas \<open>parse_value_shorter\<close> and \<open>parse_member_shorter\<close>).
\<close>

function parse_value :: "char list \<Rightarrow> error + (cJSON \<times> char list)"
  and parse_array :: "char list \<Rightarrow> error + (cJSON \<times> char list)"
  and parse_array_loop :: "cJSON list \<Rightarrow> char list \<Rightarrow> error + (cJSON list \<times> char list)"
  and parse_object :: "char list \<Rightarrow> error + (cJSON \<times> char list)"
  and parse_member :: "char list \<Rightarrow> error + ((char list \<times> cJSON) \<times> char list)"
  and parse_object_loop :: "(char list \<times> cJSON) list \<Rightarrow> char list \<Rightarrow> error + ((char list \<times> cJSON) list \<times> char list)"
where
  "parse_value value =
     (if take 4 value = ''null'' then Inr (cJSON_NULL, drop 4 value)
      else if take 5 value = ''false'' then Inr (cJSON_False, drop 5 value)
      else if take 4 value = ''true'' then Inr (cJSON_True, drop 4 value)
      else if deref value = QUOTE then
        (case parse_string value of
           Inl e \<Rightarrow> Inl e
         | Inr (s, end) \<Rightarrow> Inr (cJSON_String s, end))
      else if deref value = CHR ''-'' \<or> is_digit (deref value) then
        (case parse_number value of ((i, d), end) \<Rightarrow> Inr (cJSON_Number i d, end))
      else if deref value = CHR ''['' then parse_array value
      else if deref value = CHR ''{'' then parse_object value
      else Inl (Syntax value))"
| "parse_array value0 =
     (if deref value0 \<noteq> CHR ''['' then Inl (Syntax value0)
      else
        let value = skip (tl value0) in
        if deref value = CHR '']'' then Inr (cJSON_Array [], tl value)
        else
          (case parse_value (skip value) of
             Inl e \<Rightarrow> Inl e
           | Inr (child, end) \<Rightarrow>
               if length end < length value0 then
                 (case parse_array_loop [child] (skip end) of
                    Inl e \<Rightarrow> Inl e
                  | Inr (children, value) \<Rightarrow>
                      if deref value = CHR '']'' then Inr (cJSON_Array children, tl value)
                      else Inl (Syntax value))
               else Inl Undefined))"
| "parse_array_loop children value =
     (if deref value = CHR '','' then
        (case parse_value (skip (tl value)) of
           Inl e \<Rightarrow> Inl e
         | Inr (child, end) \<Rightarrow>
             if length end < length value then parse_array_loop (children @ [child]) (skip end)
             else Inl Undefined)
      else Inr (children, value))"
| "parse_object value0 =
     (if deref value0 \<noteq> CHR ''{'' then Inl (Syntax value0)
      else
        let value = skip (tl value0) in
        if deref value = CHR ''}'' then Inr (cJSON_Object [], tl value)
        else
          (case parse_member value of
             Inl e \<Rightarrow> Inl e
           | Inr (child, value) \<Rightarrow>
               if length value < length value0 then
                 (case parse_object_loop [child] value of
                    Inl e \<Rightarrow> Inl e
                  | Inr (children, value) \<Rightarrow>
                      if deref value = CHR ''}'' then Inr (cJSON_Object children, tl value)
                      else Inl (Syntax value))
               else Inl Undefined))"
| "parse_member value0 =
     (case parse_string (skip value0) of
        Inl e \<Rightarrow> Inl e
      | Inr (string, end) \<Rightarrow>
          let value = skip end in
          if deref value \<noteq> CHR '':'' then Inl (Syntax value)
          else
            (case parse_value (skip (tl value)) of
               Inl e \<Rightarrow> Inl e
             | Inr (child, end) \<Rightarrow> Inr ((string, child), skip end)))"
| "parse_object_loop children value =
     (if deref value = CHR '','' then
        (case parse_member (tl value) of
           Inl e \<Rightarrow> Inl e
         | Inr (child, value') \<Rightarrow>
             if length value' < length value then parse_object_loop (children @ [child]) value'
             else Inl Undefined)
      else Inr (children, value))"
  by pat_completeness auto


termination
proof -
  have skip_le: "length (skip v) \<le> length v" for v
    by (simp add: skip_def length_dropWhile_le)
  have tl_lt: "length (tl v) < length v" if "deref v \<noteq> NUL" for v
    using that by (cases v) simp_all
  have unesc: "\<And>out end. unescape p = Inr (out, end) \<Longrightarrow> length end \<le> length p" for p
  proof (induction p rule: unescape.induct)
    case (1 ptr)
    have adv: "length q = length p - k \<and> k \<le> length p" if "advance k p = Inr q"
      for k and p q :: "char list"
      using that by (auto simp: advance_def split: if_splits)
    have esc_u: "length q \<le> length p" if "escape_u p = Inr (bs, q)" for p bs q
      using that
      by (auto simp: escape_u_def Let_def split: sum.splits if_splits dest!: adv)
    have esc: "length q < length p" if "escape_step p = Inr (bs, q)" for p bs q
      using that unfolding escape_step_def
      by (auto split: sum.splits if_splits prod.splits dest!: adv esc_u)
    show ?case
    proof (cases "deref ptr = QUOTE \<or> deref ptr = NUL")
      case True
      then show ?thesis using "1.prems" by (subst (asm) unescape.simps) auto
    next
      case False
      note nq = this
      show ?thesis
      proof (cases "deref ptr \<noteq> BSLASH")
        case True
        then obtain o' where "unescape (tl ptr) = Inr (o', end)"
          using "1.prems" nq by (subst (asm) unescape.simps) (auto split: sum.splits)
        then have "length end \<le> length (tl ptr)" using "1.IH"(1) nq True by blast
        then show ?thesis by simp
      next
        case False
        then obtain bs p' o' where s: "escape_step (tl ptr) = Inr (bs, p')" "unescape p' = Inr (o', end)"
          using "1.prems" nq by (subst (asm) unescape.simps) (auto split: sum.splits)
        then have "length end \<le> length p'" using "1.IH"(2) nq False by blast
        moreover have "length p' < length (tl ptr)" using esc s(1) by blast
        ultimately show ?thesis by simp
      qed
    qed
  qed
  have pstr: "length end < length v" if "parse_string v = Inr (s, end)" for v s "end"
  proof -
    from that have q: "deref v = QUOTE" by (auto simp: parse_string_def split: if_splits)
    then have ne: "length (tl v) < length v" by (cases v) (simp_all add: QUOTE_def NUL_def)
    from that q obtain out ptr where u: "unescape (tl v) = Inr (out, ptr)"
      and e: "end = (if deref ptr = QUOTE then tl ptr else ptr)"
      by (auto simp: parse_string_def split: if_splits sum.splits)
    from unesc[OF u] e have "length end \<le> length (tl v)" by auto
    with ne show ?thesis by simp
  qed
  let ?len = "\<lambda>x :: (char list + char list + cJSON list \<times> char list) +
                 char list + char list + (char list \<times> cJSON) list \<times> char list.
               case x of
                 Inl (Inl v) \<Rightarrow> length v
               | Inl (Inr (Inl v)) \<Rightarrow> length v
               | Inl (Inr (Inr (cs, v))) \<Rightarrow> length v
               | Inr (Inl v) \<Rightarrow> length v
               | Inr (Inr (Inl v)) \<Rightarrow> length v
               | Inr (Inr (Inr (cs, v))) \<Rightarrow> length v"
  let ?rank = "\<lambda>x :: (char list + char list + cJSON list \<times> char list) +
                 char list + char list + (char list \<times> cJSON) list \<times> char list.
               case x of Inl (Inl v) \<Rightarrow> 1 | _ \<Rightarrow> (0::nat)"
  have skip_tl: "length (skip (tl v)) < length v" if "deref v \<noteq> NUL" for v
    using skip_le[of "tl v"] tl_lt[OF that] by simp
  have skip_skip_tl: "length (skip (skip (tl v))) < length v" if "deref v \<noteq> NUL" for v
    using skip_le[of "skip (tl v)"] skip_tl[OF that] by simp
  have skip_lt: "length (skip y) < n" if "length y < n" for y n
    using skip_le[of y] that by simp
  have member: "length (skip (tl (skip y))) < length v"
    if "parse_string (skip v) = Inr (x, y)" "deref (skip y) \<noteq> NUL" for v x y
    using pstr[OF that(1)] skip_le[of v] skip_le[of y] skip_tl[OF that(2)] by simp
  have tl_lt': "length v - Suc 0 < length v" if "deref v \<noteq> NUL" for v
    using tl_lt[OF that] by simp
  have member': "length (skip y) - Suc 0 < length v"
    if "parse_string (skip v) = Inr (x, y)" for v x y
    using pstr[OF that(1)] skip_le[of v] skip_le[of y] by simp
  show ?thesis
    apply (relation "measures [?len, ?rank]")
    apply (auto simp: NUL_def intro!: skip_tl skip_skip_tl skip_lt tl_lt tl_lt' member member')
    done
qed

declare parse_value.simps [simp del] parse_array.simps [simp del] parse_array_loop.simps [simp del]
  parse_object.simps [simp del] parse_member.simps [simp del] parse_object_loop.simps [simp del]

text \<open>
  \<^verbatim>\<open>cJSON_ParseWithOpts\<close> returns the tree and the pointer it stores in
  \<^verbatim>\<open>*return_parse_end\<close>, or the error with the error pointer.
\<close>

definition cJSON_ParseWithOpts :: "char list \<Rightarrow> bool \<Rightarrow> error + (cJSON \<times> char list)" where
  "cJSON_ParseWithOpts value require_null_terminated =
     (case parse_value (skip value) of
        Inl e \<Rightarrow> Inl e
      | Inr (c, end) \<Rightarrow>
          if require_null_terminated then
            (let end = skip end in
             if deref end \<noteq> NUL then Inl (Syntax end) else Inr (c, end))
          else Inr (c, end))"

definition cJSON_Parse :: "char list \<Rightarrow> error + cJSON" where
  "cJSON_Parse value = map_sum id fst (cJSON_ParseWithOpts value False)"

text \<open>A text of nothing but the characters \<^verbatim>\<open>skip\<close> passes over.\<close>

definition whitespace_only :: "char list \<Rightarrow> bool" where
  "whitespace_only ws = list_all (\<lambda>c. c \<noteq> NUL \<and> (of_char c :: nat) \<le> 32) ws"

section \<open>The serializer without a print buffer\<close>

text \<open>
  \<^verbatim>\<open>print_array\<close> and \<^verbatim>\<open>print_object\<close> first render every child, then compose
  the output in a loop over the entries: \<open>compose_array\<close> and \<open>compose_object\<close>. The
  allocations are taken to succeed. \<open>depth\<close> is an \<^verbatim>\<open>int\<close>; a loop
  \<^verbatim>\<open>for (j=0;j<depth;j++)\<close> writes \<open>nat depth\<close> tabs.
\<close>

definition TAB :: char where "TAB = CHR 0x09"
definition NL :: char where "NL = CHR 0x0A"

fun compose_array :: "char list list \<Rightarrow> bool \<Rightarrow> char list" where
  "compose_array [] fmt = []"
| "compose_array [e] fmt = e"
| "compose_array (e # es) fmt = e @ '','' @ (if fmt then '' '' else []) @ compose_array es fmt"

fun compose_object :: "(char list \<times> char list) list \<Rightarrow> int \<Rightarrow> bool \<Rightarrow> char list" where
  "compose_object [] depth fmt = []"
| "compose_object ((name, entry) # es) depth fmt =
     (if fmt then replicate (nat depth) TAB else []) @ name @ '':'' @ (if fmt then [TAB] else [])
     @ entry @ (if es \<noteq> [] then '','' else []) @ (if fmt then [NL] else [])
     @ compose_object es depth fmt"

fun print_value :: "cJSON \<Rightarrow> int \<Rightarrow> bool \<Rightarrow> char list"
  and print_array :: "cJSON list \<Rightarrow> int \<Rightarrow> bool \<Rightarrow> char list"
  and print_object :: "(char list \<times> cJSON) list \<Rightarrow> int \<Rightarrow> bool \<Rightarrow> char list"
where
  "print_value cJSON_NULL depth fmt = ''null''"
| "print_value cJSON_False depth fmt = ''false''"
| "print_value cJSON_True depth fmt = ''true''"
| "print_value (cJSON_Number valueint valuedouble) depth fmt = print_number valueint valuedouble"
| "print_value (cJSON_String valuestring) depth fmt = print_string_ptr valuestring"
| "print_value (cJSON_Array children) depth fmt = print_array children depth fmt"
| "print_value (cJSON_Object children) depth fmt = print_object children depth fmt"
| "print_array children depth fmt =
     (if children = [] then ''[]''
      else ''['' @ compose_array (map (\<lambda>child. print_value child (depth + 1) fmt) children) fmt @ '']'')"
| "print_object children depth0 fmt =
     (if children = [] then
        ''{'' @ (if fmt then NL # replicate (nat (depth0 - 1)) TAB else []) @ ''}''
      else
        let depth = depth0 + 1 in
        ''{'' @ (if fmt then [NL] else [])
        @ compose_object
            (map (\<lambda>(string, child). (print_string_ptr string, print_value child depth fmt)) children)
            depth fmt
        @ (if fmt then replicate (nat (depth - 1)) TAB else []) @ ''}'')"

definition cJSON_Print :: "cJSON \<Rightarrow> char list" where
  "cJSON_Print item = print_value item 0 True"

definition cJSON_PrintUnformatted :: "cJSON \<Rightarrow> char list" where
  "cJSON_PrintUnformatted item = print_value item 0 False"

section \<open>The layout of pretty printing\<close>

text \<open>
  The layout the serializer is to produce with \<open>fmt\<close> set, written down on its own.
  An array is one line: \<open>[\<close>, the elements separated by a comma and a space, \<open>]\<close>.
  An object with members is \<open>{\<close> and a newline, one line per member, and \<open>}\<close>
  after one tab per level of the object; a member's line is one tab per level of the
  member, the key, a colon, a tab and the value, then a comma unless the member is
  the last one. An object without members is \<open>{\<close>, a newline, one tab less than
  its level has, and \<open>}\<close>. Everything else prints as it does without \<open>fmt\<close>.
\<close>

definition tabs :: "int \<Rightarrow> char list" where
  "tabs n = replicate (nat n) TAB"

definition separated_by :: "char list \<Rightarrow> char list list \<Rightarrow> char list" where
  "separated_by sep xs = (if xs = [] then [] else concat (map (\<lambda>x. x @ sep) (butlast xs)) @ last xs)"

definition member_lines :: "char list list \<Rightarrow> char list" where
  "member_lines ls =
     (if ls = [] then [] else concat (map (\<lambda>l. l @ '','' @ [NL]) (butlast ls)) @ last ls @ [NL])"

fun pretty :: "cJSON \<Rightarrow> int \<Rightarrow> char list" where
  "pretty (cJSON_Array items) depth =
     ''['' @ separated_by '', '' (map (\<lambda>item. pretty item (depth + 1)) items) @ '']''"
| "pretty (cJSON_Object members) depth =
     (if members = [] then ''{'' @ [NL] @ tabs (depth - 1) @ ''}''
      else
        ''{'' @ [NL]
        @ member_lines
            (map (\<lambda>(key, item).
                    tabs (depth + 1) @ print_string_ptr key @ '':'' @ [TAB] @ pretty item (depth + 1))
               members)
        @ tabs depth @ ''}'')"
| "pretty leaf depth = print_value leaf depth False"

section \<open>Trees that the text keeps whole\<close>

text \<open>
  A number the serializer prints with all its digits: \<open>valuedouble\<close> is a whole number
  of magnitude below \<open>2\<^sup>5\<^sup>3\<close> and \<open>valueint\<close> is what the conversion \<^verbatim>\<open>(int)\<close> makes of
  it, as \<^verbatim>\<open>cJSON_CreateNumber\<close> and the parser set it.
\<close>

definition whole_number :: "int \<Rightarrow> double \<Rightarrow> bool" where
  "whole_number valueint valuedouble =
     (case valuedouble of
        Finite q \<Rightarrow> q = of_int \<lfloor>q\<rfloor> \<and> \<bar>q\<bar> < 2 ^ 53 \<and> valueint = int_of_double valuedouble
      | _ \<Rightarrow> False)"

text \<open>
  A tree all of whose numbers are such, and whose strings and keys are C strings
  (no byte of them is the terminator).
\<close>

fun lossless :: "cJSON \<Rightarrow> bool" where
  "lossless (cJSON_Number valueint valuedouble) = whole_number valueint valuedouble"
| "lossless (cJSON_String valuestring) = (NUL \<notin> set valuestring)"
| "lossless (cJSON_Array children) = (\<forall>child \<in> set children. lossless child)"
| "lossless (cJSON_Object children) =
     (\<forall>(string, child) \<in> set children. NUL \<notin> set string \<and> lossless child)"
| "lossless _ = True"

text \<open>The characters a printed value starts with, and what can follow a printed value.\<close>

definition value_start :: "char \<Rightarrow> bool" where
  "value_start c = (c \<in> set ''nft-0123456789[{'' \<or> c = QUOTE)"

definition value_end :: "char list \<Rightarrow> bool" where
  "value_end rest = (deref rest = NUL \<or> deref rest \<in> set '',]}'' \<or> deref rest = NL)"

definition sample :: cJSON where
  "sample = cJSON_Object
     [(''id'', cJSON_Number 42 (Finite 42)),
      (''tags'', cJSON_Array [cJSON_String ''a'', cJSON_Number (- 7) (Finite (- 7)), cJSON_NULL, cJSON_Array []]),
      (''ok'', cJSON_True), (''none'', cJSON_Object []), (''big'', cJSON_Number INT_MIN (Finite (10 ^ 15)))]"

section \<open>The tree as linked nodes\<close>


type_synonym addr = nat

record heap =
  node_next :: "addr \<Rightarrow> addr option"
  node_prev :: "addr \<Rightarrow> addr option"
  node_child :: "addr \<Rightarrow> addr option"
  node_type :: "addr \<Rightarrow> int"
  node_string :: "addr \<Rightarrow> char list option"
  allocated :: "addr \<Rightarrow> bool"

definition set_next :: "addr \<Rightarrow> addr option \<Rightarrow> heap \<Rightarrow> heap" where
  "set_next a v h = h\<lparr>node_next := (node_next h)(a := v)\<rparr>"

definition set_prev :: "addr \<Rightarrow> addr option \<Rightarrow> heap \<Rightarrow> heap" where
  "set_prev a v h = h\<lparr>node_prev := (node_prev h)(a := v)\<rparr>"

definition set_child :: "addr \<Rightarrow> addr option \<Rightarrow> heap \<Rightarrow> heap" where
  "set_child a v h = h\<lparr>node_child := (node_child h)(a := v)\<rparr>"

definition set_string :: "addr \<Rightarrow> char list option \<Rightarrow> heap \<Rightarrow> heap" where
  "set_string a v h = h\<lparr>node_string := (node_string h)(a := v)\<rparr>"

text \<open>\<^verbatim>\<open>cJSON_strcasecmp\<close>, as the test whether it returns 0; \<^verbatim>\<open>tolower\<close> is that of
  the C locale.\<close>

definition tolower :: "char \<Rightarrow> char" where
  "tolower c = (if 65 \<le> (of_char c :: nat) \<and> (of_char c :: nat) \<le> 90 then char_of ((of_char c :: nat) + 32) else c)"

fun strcasecmp_loop :: "char list \<Rightarrow> char list \<Rightarrow> bool" where
  "strcasecmp_loop s1 s2 =
     (if tolower (deref s1) = tolower (deref s2) then
        (if deref s1 = NUL then True
         else (case (s1, s2) of
                 (_ # r1, _ # r2) \<Rightarrow> strcasecmp_loop r1 r2
               | _ \<Rightarrow> False))
      else False)"

definition cJSON_strcasecmp :: "char list option \<Rightarrow> char list option \<Rightarrow> bool" where
  "cJSON_strcasecmp s1 s2 =
     (case s1 of
        None \<Rightarrow> s2 = None
      | Some t1 \<Rightarrow> (case s2 of None \<Rightarrow> False | Some t2 \<Rightarrow> strcasecmp_loop t1 t2))"










text \<open>
  \<^verbatim>\<open>cJSON_Delete\<close>: the loop over a node and the siblings after it, which frees
  the children of every node that is no reference, then the node. (The strings it
  frees are blocks of their own, outside this store.) Reading a node that has been
  freed is the fault \<open>Use_After_Free\<close>; a walk that never ends is the value \<open>None\<close>.
\<close>

definition cJSON_IsReference :: int where
  "cJSON_IsReference = 256"

definition is_reference :: "heap \<Rightarrow> addr \<Rightarrow> bool" where
  "is_reference h c = (node_type h c AND cJSON_IsReference \<noteq> 0)"





text \<open>
  The sibling list. \<open>seg h p cur as e\<close>: following \<^verbatim>\<open>next\<close> from \<open>cur\<close> visits the
  nodes \<open>as\<close> and arrives at \<open>e\<close>, and the \<^verbatim>\<open>prev\<close> of every node visited is the
  node before it (\<open>p\<close> for the first). \<open>sibling_list h parent as\<close>: the children of
  \<open>parent\<close> are the distinct nodes \<open>as\<close>, from \<^verbatim>\<open>child\<close> to the null pointer, and the
  first has no \<^verbatim>\<open>prev\<close>. \<open>doubly_linked\<close> says the same of the nodes the way the
  data model does: \<open>a\<close>'s \<^verbatim>\<open>next\<close> is \<open>b\<close> exactly when \<open>b\<close>'s \<^verbatim>\<open>prev\<close> is \<open>a\<close>, and
  the first child is the one child without \<^verbatim>\<open>prev\<close>. The invariant of a parent's
  child list is both, of allocated nodes.
\<close>

fun seg :: "heap \<Rightarrow> addr option \<Rightarrow> addr option \<Rightarrow> addr list \<Rightarrow> addr option \<Rightarrow> bool" where
  "seg h p cur [] e = (cur = e)"
| "seg h p cur (a # as) e = (cur = Some a \<and> node_prev h a = p \<and> seg h (Some a) (node_next h a) as e)"

definition sibling_list :: "heap \<Rightarrow> addr \<Rightarrow> addr list \<Rightarrow> bool" where
  "sibling_list h parent as = (distinct as \<and> seg h None (node_child h parent) as None)"

definition detached :: "heap \<Rightarrow> addr \<Rightarrow> bool" where
  "detached h item = (node_next h item = None \<and> node_prev h item = None)"

definition key_index :: "heap \<Rightarrow> char list option \<Rightarrow> addr list \<Rightarrow> nat" where
  "key_index h string as = length (takeWhile (\<lambda>a. \<not> cJSON_strcasecmp (node_string h a) string) as)"










section \<open>Properties of the print buffer\<close>

lemma smear_step:
  fixes z y :: int
  assumes "\<And>n. bit z n \<longleftrightarrow> (\<exists>j<a. bit y (n + j))"
  shows "bit (z OR drop_bit a z) n \<longleftrightarrow> (\<exists>j<2*a. bit y (n + j))"
proof
  assume "bit (z OR drop_bit a z) n"
  then consider "bit z n" | "bit z (a + n)" by (auto simp: bit_or_iff bit_drop_bit_eq)
  then show "\<exists>j<2*a. bit y (n + j)"
  proof cases
    case 1 then obtain j where "j < a" "bit y (n + j)" using assms by blast
    then show ?thesis by (intro exI[of _ j]) simp
  next
    case 2 then obtain j where "j < a" "bit y (a + n + j)" using assms by blast
    then show ?thesis by (intro exI[of _ "a + j"]) (simp add: ac_simps)
  qed
next
  assume "\<exists>j<2*a. bit y (n + j)"
  then obtain j where j: "j < 2*a" "bit y (n + j)" by blast
  show "bit (z OR drop_bit a z) n"
  proof (cases "j < a")
    case True
    with j assms have "bit z n" by blast
    then show ?thesis by (simp add: bit_or_iff)
  next
    case False
    then have "j - a < a" "n + j = a + n + (j - a)" using j by auto
    with j assms[of "a + n"] have "bit z (a + n)" by metis
    then show ?thesis by (simp add: bit_or_iff bit_drop_bit_eq)
  qed
qed

lemma bit_smear: "bit (smear y) n \<longleftrightarrow> (\<exists>j<32. bit y (n + j))"
proof -
  define x1 where "x1 = y OR drop_bit 1 y"
  define x2 where "x2 = x1 OR drop_bit 2 x1"
  define x3 where "x3 = x2 OR drop_bit 4 x2"
  define x4 where "x4 = x3 OR drop_bit 8 x3"
  define x5 where "x5 = x4 OR drop_bit 16 x4"
  have s0: "\<And>n. bit y n \<longleftrightarrow> (\<exists>j<1. bit y (n + j))" by simp
  have s1: "\<And>n. bit x1 n \<longleftrightarrow> (\<exists>j<2. bit y (n + j))"
    using smear_step[of y 1 y, OF s0] by (simp add: x1_def)
  have s2: "\<And>n. bit x2 n \<longleftrightarrow> (\<exists>j<4. bit y (n + j))"
    using smear_step[of x1 2 y, OF s1] by (simp add: x2_def)
  have s3: "\<And>n. bit x3 n \<longleftrightarrow> (\<exists>j<8. bit y (n + j))"
    using smear_step[of x2 4 y, OF s2] by (simp add: x3_def)
  have s4: "\<And>n. bit x4 n \<longleftrightarrow> (\<exists>j<16. bit y (n + j))"
    using smear_step[of x3 8 y, OF s3] by (simp add: x4_def)
  have s5: "\<And>n. bit x5 n \<longleftrightarrow> (\<exists>j<32. bit y (n + j))"
    using smear_step[of x4 16 y, OF s4] by (simp add: x5_def)
  have "smear y = x5"
    by (simp add: smear_def Let_def x1_def x2_def x3_def x4_def x5_def)
  then show ?thesis using s5 by simp
qed

lemma smear_mask:
  assumes "0 \<le> y" "y < 2 ^ L" "L \<le> 32" "L = 0 \<or> 2 ^ (L - 1) \<le> y"
  shows "smear y = mask L"
proof (rule bit_eqI)
  fix n
  have hi: "\<not> bit y m" if "L \<le> m" for m
  proof -
    have "y < 2 ^ m" using assms(2) that
      by (meson less_le_trans power_increasing one_le_numeral)
    then show ?thesis using assms(1) by (simp add: bit_iff_odd)
  qed
  show "bit (smear y) n \<longleftrightarrow> bit (mask L :: int) n"
  proof (cases "n < L")
    case True
    then have L: "L \<noteq> 0" "2 ^ (L - 1) \<le> y" using assms(4) by auto
    have "y div 2 ^ (L - 1) = 1"
    proof -
      have "y < 2 * 2 ^ (L - 1)" using assms(2) L(1) by (metis power_eq_if)
      then show ?thesis using L(2) int_div_pos_eq[of y "2 ^ (L - 1)" 1 "y - 2 ^ (L - 1)"] by simp
    qed
    then have "bit y (L - 1)" by (simp add: bit_iff_odd)
    moreover have "L - 1 - n < 32" "n + (L - 1 - n) = L - 1" using True assms(3) by auto
    ultimately have "\<exists>j<32. bit y (n + j)" by metis
    then show ?thesis using True by (simp add: bit_smear bit_mask_iff)
  next
    case False
    then have "\<not> (\<exists>j<32. bit y (n + j))" using hi by simp
    then show ?thesis using False by (simp add: bit_smear bit_mask_iff)
  qed
qed


lemma wrap32_id: "- 2147483648 \<le> x \<Longrightarrow> x < 2147483648 \<Longrightarrow> wrap32 x = x"
  unfolding wrap32_def by (rule signed_take_bit_int_eq_self) simp_all

lemma pow2gt_smear: "pow2gt x = wrap32 (smear (wrap32 (x - 1)) + 1)"
  by (simp add: pow2gt_def smear_def Let_def)

lemma pow2gt_correct:
  assumes "1 \<le> x" "x \<le> 2 ^ 30"
  shows "\<exists>k\<le>30. pow2gt x = 2 ^ k \<and> x \<le> 2 ^ k \<and> (\<forall>j. x \<le> 2 ^ j \<longrightarrow> k \<le> j)"
proof -
  define y where "y = x - 1"
  have y: "0 \<le> y" "y < 2 ^ 30" using assms by (simp_all add: y_def)
  define L where "L = (LEAST l. y < 2 ^ l)"
  have yL: "y < 2 ^ L" unfolding L_def using y(2) by (rule LeastI)
  have L30: "L \<le> 30" unfolding L_def using y(2) by (rule Least_le)
  have Lmin: "L \<le> j" if "y < 2 ^ j" for j unfolding L_def using that by (rule Least_le)
  have low: "L = 0 \<or> 2 ^ (L - 1) \<le> y"
  proof (rule ccontr)
    assume "\<not> ?thesis"
    then have "L \<noteq> 0" "y < 2 ^ (L - 1)" by auto
    with Lmin[of "L - 1"] show False by simp
  qed
  have sm: "smear y = mask L" using y(1) yL _ low by (rule smear_mask) (use L30 in simp)
  have p30: "(2::int) ^ L \<le> 2 ^ 30" using L30 by (intro power_increasing) simp_all
  have "wrap32 (x - 1) = y" using y by (simp add: y_def wrap32_id)
  then have "pow2gt x = wrap32 (mask L + 1)" by (simp add: pow2gt_smear sm)
  also have "\<dots> = 2 ^ L"
  proof -
    have "(0::int) \<le> 2 ^ L" by simp
    moreover have "(2::int) ^ L < 2147483648" using p30 by simp
    ultimately have "wrap32 (2 ^ L) = 2 ^ L" by (intro wrap32_id) linarith+
    then show ?thesis by (simp add: mask_eq_exp_minus_1)
  qed
  finally have 1: "pow2gt x = 2 ^ L" .
  have 2: "x \<le> 2 ^ L" using yL by (simp add: y_def)
  have 3: "L \<le> j" if "x \<le> 2 ^ j" for j using that Lmin[of j] by (simp add: y_def)
  show ?thesis using 1 2 3 L30 by blast
qed


lemma pow2gt_large:
  assumes "2 ^ 30 < x" "x \<le> 2147483647"
  shows "pow2gt x = - 2147483648"
proof -
  define y where "y = x - 1"
  have y: "0 \<le> y" "y < 2 ^ 31" "2 ^ (31 - 1) \<le> y" using assms by (simp_all add: y_def)
  have sm: "smear y = mask 31" using y(1,2) _ _ by (rule smear_mask) (use y(3) in simp_all)
  have "wrap32 (x - 1) = y" using y by (simp add: y_def wrap32_id)
  then have "pow2gt x = wrap32 (mask 31 + 1)" by (simp add: pow2gt_smear sm)
  also have "\<dots> = - 2147483648" by (simp add: mask_eq_exp_minus_1 wrap32_def)
  finally show ?thesis .
qed

lemma length_cJSON_malloc: "cJSON_malloc a sz = Some blk \<Longrightarrow> int (length blk) = sz"
  by (auto simp: cJSON_malloc_def split: if_splits)

text \<open>
  C6 (as amended). Let the buffer own a block of exactly \<open>length_pb p\<close> bytes, let the
  offset and the request \<open>n\<close> be non-negative, and let \<open>offset p + n\<close> fit a 32-bit
  \<^verbatim>\<open>int\<close>. Then \<^verbatim>\<open>ensure\<close> either returns the pointer at the current offset into
  a block that has at least \<open>n\<close> bytes after the offset and starts with the old block's
  bytes (the state is unchanged when the capacity sufficed, and the new capacity is
  the smallest power of two that is at least \<open>offset p + n\<close> otherwise), or it
  returns the null pointer with storage and capacity cleared.
\<close>

theorem ensure_guarantee:
  assumes buf: "buffer p = Some mem" and len: "int (length mem) = length_pb p"
    and off: "0 \<le> offset p" and n: "0 \<le> n" and nowrap: "offset p + n \<le> INT_MAX"
  shows "case ensure a p n of
           (p', Some ptr) \<Rightarrow>
             ptr = nat (offset p) \<and> offset p' = offset p \<and> offset p + n \<le> length_pb p' \<and>
             (\<exists>mem'. buffer p' = Some mem' \<and> int (length mem') = length_pb p' \<and>
                     take (length mem) mem' = mem) \<and>
             (if offset p + n \<le> length_pb p then p' = p
              else \<exists>k. length_pb p' = 2 ^ k \<and> offset p + n \<le> 2 ^ k \<and>
                       (\<forall>j. offset p + n \<le> 2 ^ j \<longrightarrow> k \<le> j))
         | (p', None) \<Rightarrow>
             buffer p' = None \<and> length_pb p' = 0 \<and> length_pb p < offset p + n"
proof -
  define needed where "needed = offset p + n"
  have w: "wrap32 (n + offset p) = needed"
    using off n nowrap by (simp add: needed_def INT_MAX_def wrap32_id)
  show ?thesis
  proof (cases "needed \<le> length_pb p")
    case True
    then show ?thesis using buf len w by (simp add: ensure_def needed_def)
  next
    case False
    then have pos: "1 \<le> needed" using len by linarith
    show ?thesis
    proof (cases "cJSON_malloc a (pow2gt needed)")
      case None
      then show ?thesis using buf w False by (simp add: ensure_def needed_def)
    next
      case (Some nb)
      have nbl: "int (length nb) = pow2gt needed" using Some by (rule length_cJSON_malloc)
      have small: "needed \<le> 2 ^ 30"
      proof (rule ccontr)
        assume "\<not> ?thesis"
        then have "pow2gt needed = - 2147483648"
          using nowrap by (intro pow2gt_large) (simp_all add: needed_def INT_MAX_def)
        with nbl show False by simp
      qed
      from pow2gt_correct[OF pos small] obtain k where
        k: "pow2gt needed = 2 ^ k" "needed \<le> 2 ^ k" "\<forall>j. needed \<le> 2 ^ j \<longrightarrow> k \<le> j"
        by blast
      have grow: "length mem \<le> length nb" using nbl k False len by linarith
      have "ensure a p n =
          (p\<lparr>length_pb := pow2gt needed, buffer := Some (memcpy nb mem (length mem))\<rparr>,
           Some (nat (offset p)))"
        using buf w False Some len[symmetric] by (simp add: ensure_def Let_def)
      moreover have "int (length (memcpy nb mem (length mem))) = pow2gt needed"
        using grow nbl by (simp add: memcpy_def)
      moreover have "take (length mem) (memcpy nb mem (length mem)) = mem"
        by (simp add: memcpy_def)
      ultimately show ?thesis using k False by (auto simp: needed_def)
    qed
  qed
qed


theorem ensure_guarantee_witness:
  "buffer \<lparr>buffer = Some ''ab'', length_pb = 2, offset = 1\<rparr> = Some ''ab'' \<and>
   int (length ''ab'') = length_pb \<lparr>buffer = Some ''ab'', length_pb = 2, offset = 1\<rparr> \<and>
   0 \<le> offset \<lparr>buffer = Some ''ab'', length_pb = 2, offset = 1\<rparr> \<and> (0::int) \<le> 4 \<and>
   offset \<lparr>buffer = Some ''ab'', length_pb = 2, offset = 1\<rparr> + 4 \<le> INT_MAX \<and>
   ensure test_alloc \<lparr>buffer = Some ''ab'', length_pb = 2, offset = 1\<rparr> 4
    = (\<lparr>buffer = Some ''abxxxxxx'', length_pb = 8, offset = 1\<rparr>, Some 1)"
  using ensure_guarantee [of "\<lparr>buffer = Some ''ab'', length_pb = 2, offset = 1\<rparr>" "''ab''" 4 test_alloc]
  by (simp add: ensure_def pow2gt_def wrap32_def Let_def cJSON_malloc_def test_alloc_def memcpy_def upt_rec INT_MAX_def)


text \<open>
  C6 as stated fails in two states. With null storage and a capacity of 16 (the state
  \<^verbatim>\<open>cJSON_PrintBuffered\<close> builds when its first allocation fails) \<^verbatim>\<open>ensure\<close>
  reports failure and leaves the capacity at 16. With offset 4 and a request of
  \<open>2147483647\<close> bytes the sum wraps to a negative number, the capacity test passes,
  and \<^verbatim>\<open>ensure\<close> reports success although no byte is free after the offset.
\<close>

theorem ensure_counterexample:
  "ensure test_alloc \<lparr>buffer = None, length_pb = 16, offset = 0\<rparr> 1
     = (\<lparr>buffer = None, length_pb = 16, offset = 0\<rparr>, None) \<and>
   ensure test_alloc \<lparr>buffer = Some ''abcd'', length_pb = 4, offset = 4\<rparr> 2147483647
     = (\<lparr>buffer = Some ''abcd'', length_pb = 4, offset = 4\<rparr>, Some 4)"
  by (simp add: ensure_def wrap32_def Let_def)

section \<open>Properties of the string codec\<close>

lemma hexval_hexdigit: "n < 16 \<Longrightarrow> hexval (hexdigit n) = Some n"
  by (auto simp: hexval_def hexdigit_def Let_def)

lemma parse_hex4_digits:
  assumes "a < 16" "b < 16" "c < 16" "d < 16"
  shows "parse_hex4 (hexdigit a # hexdigit b # hexdigit c # hexdigit d # X)
         = ((a * 16 + b) * 16 + c) * 16 + d"
  using assms by (simp add: parse_hex4_def hexval_hexdigit Let_def push_bit_eq_mult)

lemma utf8_encode_ascii: "0 < n \<Longrightarrow> n < 128 \<Longrightarrow> utf8_encode n = [char_of n]"
  by (simp add: utf8_encode_def lead_byte_def firstByteMark_def)

lemma escape_step_u04x:
  assumes "c \<noteq> NUL" "(of_char c :: nat) < 32"
  shows "escape_step (sprintf_u04x c @ X) = Inr ([c], X)"
proof -
  define n where "n = (of_char c :: nat)"
  have "(of_char c :: nat) \<noteq> of_char NUL" using assms(1) by simp
  then have "n \<noteq> 0" by (simp add: n_def NUL_def)
  then have n: "n < 32" "0 < n" "char_of n = c"
    using assms by (auto simp: n_def)
  have d: "n div 4096 mod 16 = 0" "n div 256 mod 16 = 0" "n div 16 mod 16 < 16" "n mod 16 < 16"
    "n div 16 mod 16 = n div 16"
    using n(1) by auto
  have s: "sprintf_u04x c = [CHR ''u'', hexdigit 0, hexdigit 0, hexdigit (n div 16), hexdigit (n mod 16)]"
    using d by (simp add: sprintf_u04x_def n_def Let_def)
  have p: "parse_hex4 (hexdigit 0 # hexdigit 0 # hexdigit (n div 16) # hexdigit (n mod 16) # X) = n"
    using n(1) by (subst parse_hex4_digits) auto
  have u: "utf8_encode n = [c]" using n by (simp add: utf8_encode_ascii)
  show ?thesis
    using n(1,2) by (simp add: s escape_step_def escape_u_def p u advance_def)
qed


lemma escape_step_escape_char:
  assumes "c \<noteq> NUL" "\<not> (31 < (of_char c :: nat) \<and> c \<noteq> QUOTE \<and> c \<noteq> BSLASH)"
  shows "escape_step (escape_char c @ X) = Inr ([c], X)"
proof -
  consider "c = BSLASH" | "c = QUOTE" | "c = CHR 0x08" | "c = CHR 0x0C" | "c = CHR 0x0A"
    | "c = CHR 0x0D" | "c = CHR 0x09"
    | "c \<notin> {BSLASH, QUOTE, CHR 0x08, CHR 0x0C, CHR 0x0A, CHR 0x0D, CHR 0x09}" by blast
  then show ?thesis
  proof cases
    case 8
    then have "(of_char c :: nat) < 32" using assms(2) by auto
    then have "escape_step (sprintf_u04x c @ X) = Inr ([c], X)"
      using assms(1) by (intro escape_step_u04x)
    then show ?thesis using 8 by (simp add: escape_char_def)
  qed (simp_all add: escape_char_def escape_step_def advance_def BSLASH_def QUOTE_def)
qed

lemma unescape_ordinary:
  "c \<noteq> NUL \<Longrightarrow> c \<noteq> QUOTE \<Longrightarrow> c \<noteq> BSLASH \<Longrightarrow>
   unescape (c # X) = (case unescape X of Inl e \<Rightarrow> Inl e | Inr (out, end) \<Rightarrow> Inr (c # out, end))"
  by (subst unescape.simps) (simp split: sum.splits)

lemma unescape_escape:
  "unescape (BSLASH # X) =
     (case escape_step X of
        Inl e \<Rightarrow> Inl e
      | Inr (bytes, ptr') \<Rightarrow>
          (case unescape ptr' of
             Inl e \<Rightarrow> Inl e
           | Inr (out, end) \<Rightarrow> Inr (bytes @ out, end)))"
  by (subst unescape.simps) (simp add: BSLASH_def QUOTE_def NUL_def)

lemma unescape_quote: "unescape (QUOTE # X) = Inr ([], QUOTE # X)"
  by (subst unescape.simps) simp

lemma unescape_escape_loop:
  "NUL \<notin> set s \<Longrightarrow> unescape (escape_loop s @ QUOTE # rest) = Inr (s, QUOTE # rest)"
proof (induction s)
  case Nil
  then show ?case by (simp add: unescape_quote)
next
  case (Cons c cs)
  then have c: "c \<noteq> NUL" and IH: "unescape (escape_loop cs @ QUOTE # rest) = Inr (cs, QUOTE # rest)"
    by auto
  show ?case
  proof (cases "31 < (of_char c :: nat) \<and> c \<noteq> QUOTE \<and> c \<noteq> BSLASH")
    case True
    then show ?thesis using c IH by (simp add: unescape_ordinary)
  next
    case False
    have "escape_step (escape_char c @ escape_loop cs @ QUOTE # rest)
        = Inr ([c], escape_loop cs @ QUOTE # rest)"
      using c False by (rule escape_step_escape_char)
    moreover have "escape_loop (c # cs) = BSLASH # escape_char c @ escape_loop cs"
      using c False by auto
    ultimately show ?thesis using IH by (simp add: unescape_escape)
  qed
qed


lemma string_length_pass_ordinary:
  "c \<noteq> NUL \<Longrightarrow> c \<noteq> QUOTE \<Longrightarrow> c \<noteq> BSLASH \<Longrightarrow>
   string_length_pass (c # X) n = string_length_pass X (Suc n)"
  by (subst string_length_pass.simps) simp

lemma string_length_pass_escape:
  "string_length_pass (BSLASH # e # X) n = string_length_pass X (Suc n)"
  by (subst string_length_pass.simps) (simp add: BSLASH_def QUOTE_def NUL_def advance_def)

lemma string_length_pass_quote: "string_length_pass (QUOTE # X) n = Inr n"
  by (subst string_length_pass.simps) simp

lemma hexdigit_ordinary:
  assumes "n < 16"
  shows "hexdigit n \<noteq> NUL \<and> hexdigit n \<noteq> QUOTE \<and> hexdigit n \<noteq> BSLASH"
proof -
  have r: "(of_char (hexdigit n) :: nat) \<in> {48..57} \<union> {97..102}"
    using assms by (auto simp: hexdigit_def)
  have ne: "hexdigit n \<noteq> c" if "(of_char c :: nat) \<notin> {48..57} \<union> {97..102}" for c
    using r that by metis
  show ?thesis by (intro conjI ne) (simp_all add: NUL_def QUOTE_def BSLASH_def)
qed

lemma string_length_pass_u04x:
  assumes "(of_char c :: nat) < 32"
  shows "string_length_pass (BSLASH # sprintf_u04x c @ X) n = string_length_pass X (n + 5)"
proof -
  define m where "m = (of_char c :: nat)"
  have d: "m div 4096 mod 16 < 16" "m div 256 mod 16 < 16" "m div 16 mod 16 < 16" "m mod 16 < 16"
    by auto
  have five: "n + 5 = Suc (Suc (Suc (Suc (Suc n))))" by simp
  show ?thesis
    unfolding sprintf_u04x_def Let_def m_def[symmetric] five
    using hexdigit_ordinary[OF d(1)] hexdigit_ordinary[OF d(2)]
      hexdigit_ordinary[OF d(3)] hexdigit_ordinary[OF d(4)]
    by (simp add: string_length_pass_escape string_length_pass_ordinary)
qed

lemma string_length_pass_escape_loop:
  "NUL \<notin> set s \<Longrightarrow>
   \<exists>k\<ge>length s. string_length_pass (escape_loop s @ QUOTE # rest) n = Inr (n + k)"
proof (induction s arbitrary: n)
  case Nil
  then show ?case by (simp add: string_length_pass_quote)
next
  case (Cons c cs)
  then have c: "c \<noteq> NUL" and cs: "NUL \<notin> set cs" by auto
  define Y where "Y = escape_loop cs @ QUOTE # rest"
  have step: "\<exists>j\<ge>1. string_length_pass (escape_loop (c # cs) @ QUOTE # rest) n
      = string_length_pass Y (n + j)"
  proof (cases "31 < (of_char c :: nat) \<and> c \<noteq> QUOTE \<and> c \<noteq> BSLASH")
    case True
    then have "string_length_pass (escape_loop (c # cs) @ QUOTE # rest) n
        = string_length_pass Y (n + 1)"
      using c by (simp add: string_length_pass_ordinary Y_def)
    then show ?thesis by blast
  next
    case False
    then have el: "escape_loop (c # cs) = BSLASH # escape_char c @ escape_loop cs"
      using c by auto
    show ?thesis
    proof (cases "c \<in> {BSLASH, QUOTE, CHR 0x08, CHR 0x0C, CHR 0x0A, CHR 0x0D, CHR 0x09}")
      case True
      then have "\<exists>e. escape_char c = [e]"
        by (auto simp: escape_char_def QUOTE_def BSLASH_def)
      then obtain e where "escape_char c = [e]" by blast
      then have "string_length_pass (escape_loop (c # cs) @ QUOTE # rest) n
          = string_length_pass Y (n + 1)"
        by (simp add: el string_length_pass_escape Y_def del: escape_loop.simps)
      then show ?thesis by blast
    next
      case nt: False
      then have "escape_char c = sprintf_u04x c" by (auto simp: escape_char_def)
      moreover have "(of_char c :: nat) < 32" using False nt by auto
      ultimately have "string_length_pass (escape_loop (c # cs) @ QUOTE # rest) n
          = string_length_pass Y (n + 5)"
        by (simp add: el string_length_pass_u04x Y_def del: escape_loop.simps)
      then show ?thesis by (intro exI[of _ 5]) simp
    qed
  qed
  then obtain j where j: "1 \<le> j"
    "string_length_pass (escape_loop (c # cs) @ QUOTE # rest) n = string_length_pass Y (n + j)"
    by blast
  from Cons.IH[OF cs, of "n + j"] obtain k where
    k: "length cs \<le> k" "string_length_pass Y (n + j) = Inr (n + j + k)"
    unfolding Y_def by blast
  show ?case using j k by (intro exI[of _ "j + k"]) simp
qed

lemma plain_string:
  "NUL \<notin> set s \<Longrightarrow> \<not> special_flag s \<Longrightarrow> escape_loop s = s \<and> c_str s = s"
proof (induction s)
  case Nil
  then show ?case by (simp add: c_str_def)
next
  case (Cons c cs)
  then have c: "c \<noteq> NUL" "\<not> is_special c" and IH: "escape_loop cs = cs" "c_str cs = cs"
    by (auto simp: c_str_def)
  from c have "31 < (of_char c :: nat) \<and> c \<noteq> QUOTE \<and> c \<noteq> BSLASH"
  proof -
    have "(of_char c :: nat) \<noteq> of_char NUL" using c(1) by simp
    then have "0 < (of_char c :: nat)" by (simp add: NUL_def)
    then show ?thesis using c(2) by (auto simp: is_special_def)
  qed
  then show ?case using c IH by (simp add: c_str_def)
qed

lemma print_string_ptr_escape_loop:
  assumes "NUL \<notin> set s"
  shows "print_string_ptr s = QUOTE # escape_loop s @ [QUOTE]"
  using plain_string[OF assms] by (auto simp: print_string_ptr_def)

lemma parse_string_print_string_ptr:
  assumes "NUL \<notin> set s"
  shows "parse_string (print_string_ptr s @ rest) = Inr (s, rest)"
proof -
  obtain k where k: "length s \<le> k"
    "string_length_pass (escape_loop s @ QUOTE # rest) 0 = Inr k"
    using string_length_pass_escape_loop[OF assms, of rest 0] by auto
  show ?thesis
    using k unescape_escape_loop[OF assms, of rest]
    by (simp add: parse_string_def print_string_ptr_escape_loop[OF assms])
qed

text \<open>
  C2. For every string \<open>s\<close> (a list of bytes none of which is NUL, so it may hold
  quotes, backslashes, the control characters 0x01 to 0x1F and the UTF-8 bytes of any
  code point), unescaping what the escaper \<^verbatim>\<open>print_string_ptr\<close> prints recovers
  exactly \<open>s\<close>, whatever text \<open>rest\<close> follows the closing quote; the pointer returned
  is at \<open>rest\<close>.
\<close>

theorem string_escape_round_trip:
  assumes "NUL \<notin> set s"
  shows "parse_string (print_string_ptr s @ rest) = Inr (s, rest)"
  using assms by (rule parse_string_print_string_ptr)

theorem string_escape_round_trip_witness:
  "NUL \<notin> set [CHR ''a'', QUOTE, BSLASH, CHR 0x01, CHR 0x1F, CHR 0x0A, CHR 0xF0, CHR 0x9F, CHR 0x98, CHR 0x80] \<and>
   parse_string
     (print_string_ptr [CHR ''a'', QUOTE, BSLASH, CHR 0x01, CHR 0x1F, CHR 0x0A, CHR 0xF0, CHR 0x9F, CHR 0x98, CHR 0x80] @ [])
   = Inr ([CHR ''a'', QUOTE, BSLASH, CHR 0x01, CHR 0x1F, CHR 0x0A, CHR 0xF0, CHR 0x9F, CHR 0x98, CHR 0x80], [])"
  using string_escape_round_trip
    [of "[CHR ''a'', QUOTE, BSLASH, CHR 0x01, CHR 0x1F, CHR 0x0A, CHR 0xF0, CHR 0x9F, CHR 0x98, CHR 0x80]" "[]"]
  by (simp add: NUL_def QUOTE_def BSLASH_def)

section \<open>Escapes that are dropped, and surrogate pairs\<close>

text \<open>
  What the second loop of \<^verbatim>\<open>parse_string\<close> does with a \<^verbatim>\<open>\u\<close> escape, as equations
  of \<open>unescape\<close>: an escape whose four characters do not give a code unit (they are
  not all hexadecimal digits, or give 0) and a low surrogate on its own are passed
  over; so is a high surrogate that no \<^verbatim>\<open>\u\<close> follows; a high surrogate followed by
  \<^verbatim>\<open>\u\<close> and four characters is passed over together with them, unless they give a
  low surrogate, in which case the pair becomes the four UTF-8 bytes of its code point.
\<close>

lemma parse_hex4_four: "parse_hex4 (a # b # c # d # x # X) = parse_hex4 [a, b, c, d]"
  by (simp add: parse_hex4_def Let_def split: option.splits)

lemma unescape_u_dropped:
  assumes "parse_hex4 [a, b, c, d] = 0 \<or> (0xDC00 \<le> parse_hex4 [a, b, c, d] \<and> parse_hex4 [a, b, c, d] \<le> 0xDFFF)"
  shows "unescape (BSLASH # CHR ''u'' # a # b # c # d # rest) = unescape rest"
proof -
  have "escape_step (CHR ''u'' # a # b # c # d # rest) = Inr ([], rest)"
    using assms by (cases rest) (auto simp: escape_step_def escape_u_def advance_def parse_hex4_four)
  then show ?thesis by (simp add: unescape_escape split: sum.splits)
qed

lemma unescape_lone_high_surrogate:
  assumes "0xD800 \<le> parse_hex4 [a, b, c, d]" "parse_hex4 [a, b, c, d] \<le> 0xDBFF"
    and "deref rest \<noteq> BSLASH \<or> deref (tl rest) \<noteq> CHR ''u''"
  shows "unescape (BSLASH # CHR ''u'' # a # b # c # d # rest) = unescape rest"
proof -
  have "escape_step (CHR ''u'' # a # b # c # d # rest) = Inr ([], rest)"
  proof (cases rest)
    case Nil
    then show ?thesis
      using assms by (simp add: escape_step_def escape_u_def advance_def BSLASH_def NUL_def)
  next
    case (Cons r rs)
    then show ?thesis
      using assms by (auto simp: escape_step_def escape_u_def advance_def parse_hex4_four)
  qed
  then show ?thesis by (simp add: unescape_escape split: sum.splits)
qed

lemma unescape_high_surrogate_then_escape:
  assumes "0xD800 \<le> parse_hex4 [a, b, c, d]" "parse_hex4 [a, b, c, d] \<le> 0xDBFF"
  shows "unescape (BSLASH # CHR ''u'' # a # b # c # d # BSLASH # CHR ''u'' # e # f # g # h # rest)
         = (if 0xDC00 \<le> parse_hex4 [e, f, g, h] \<and> parse_hex4 [e, f, g, h] \<le> 0xDFFF then
              (case unescape rest of
                 Inl err \<Rightarrow> Inl err
               | Inr (out, end) \<Rightarrow>
                   Inr (utf8_encode
                          (0x10000 + (push_bit 10 (parse_hex4 [a, b, c, d] AND 0x3FF)
                                      OR (parse_hex4 [e, f, g, h] AND 0x3FF))) @ out, end))
            else unescape rest)"
proof -
  have "escape_step (CHR ''u'' # a # b # c # d # BSLASH # CHR ''u'' # e # f # g # h # rest)
      = (if 0xDC00 \<le> parse_hex4 [e, f, g, h] \<and> parse_hex4 [e, f, g, h] \<le> 0xDFFF then
           Inr (utf8_encode
                  (0x10000 + (push_bit 10 (parse_hex4 [a, b, c, d] AND 0x3FF)
                              OR (parse_hex4 [e, f, g, h] AND 0x3FF))), rest)
         else Inr ([], rest))"
    using assms
    by (simp add: escape_step_def escape_u_def advance_def parse_hex4_four[of a] Let_def) (cases rest; simp add: parse_hex4_four)
  then show ?thesis by (simp add: unescape_escape split: sum.splits)
qed

lemma bit_128: "bit (128::nat) n \<longleftrightarrow> n = 7"
proof -
  have "(128::nat) = 2 ^ 7" by simp
  then show ?thesis by (simp only: bit_exp_iff) auto
qed

lemma bit_191: "bit (191::nat) n \<longleftrightarrow> n < 6 \<or> n = 7"
proof -
  have "(191::nat) = mask 6 + 128" by (simp add: mask_eq_exp_minus_1)
  also have "\<dots> = mask 6 OR 128"
    by (rule disjunctive_add) (auto simp: bit_mask_iff bit_128)
  finally have "(191::nat) = mask 6 OR 128" .
  then show ?thesis by (simp only: bit_or_iff bit_mask_iff bit_128) auto
qed

lemma cont_byte_eq: "cont_byte u = char_of (0x80 + u mod 64)"
proof -
  have "(u OR 128) AND 191 = take_bit 6 u OR 128"
    by (rule bit_eqI) (auto simp: bit_and_iff bit_or_iff bit_take_bit_iff bit_128 bit_191)
  also have "\<dots> = take_bit 6 u + 128"
    by (rule disjunctive_add[symmetric]) (auto simp: bit_take_bit_iff bit_128)
  finally show ?thesis by (simp add: cont_byte_def take_bit_eq_mod add.commute)
qed

lemma lead_byte_four: "u < 8 \<Longrightarrow> lead_byte 4 u = char_of (0xF0 + u)"
proof -
  assume u: "u < 8"
  have b240: "bit (240::nat) n \<longleftrightarrow> 4 \<le> n \<and> n < 8" for n
  proof -
    have "(240::nat) = push_bit 4 (mask 4)" by (simp add: mask_eq_exp_minus_1 push_bit_eq_mult)
    then show ?thesis by (simp only: bit_push_bit_iff bit_mask_iff) auto
  qed
  have "u = take_bit 3 u" using u by (simp add: take_bit_nat_eq_self)
  then have bu: "bit u n \<Longrightarrow> n < 3" for n by (metis bit_take_bit_iff)
  have "u OR 240 = u + 240"
  proof (rule disjunctive_add[symmetric])
    fix n
    show "\<not> bit u n \<or> \<not> bit (240::nat) n" using bu[of n] by (auto simp: b240)
  qed
  then show ?thesis by (simp add: lead_byte_def firstByteMark_def add.commute)
qed

lemma utf8_encode_four:
  assumes "0x10000 \<le> cp" "cp < 0x200000"
  shows "utf8_encode cp
         = [char_of (0xF0 + cp div 2 ^ 18), char_of (0x80 + cp div 2 ^ 12 mod 64),
            char_of (0x80 + cp div 2 ^ 6 mod 64), char_of (0x80 + cp mod 64)]"
proof -
  have "cp div 2 ^ 18 < 8" using assms(2) by simp
  then show ?thesis
    using assms(1) by (simp add: utf8_encode_def cont_byte_eq lead_byte_four drop_bit_eq_div)
qed

text \<open>
  C4, at an input where the code fails it. The string \<^verbatim>\<open>"\ud800\u"aaaaaaaaaaaa"\<close> has a
  high surrogate that is followed by \<^verbatim>\<open>\u\<close> and the four characters \<^verbatim>\<open>"aaa\<close>. The first
  loop stops at that quote with \<open>len = 6\<close>, so the block has 7 bytes; the second loop
  takes the four characters for the second half of the pair, emits nothing for both
  escapes, and then copies the nine remaining \<open>a\<close> and a NUL: it writes 10 bytes, past
  the end of the block.
\<close>

theorem parse_string_surrogate_overflow:
  "string_length_pass (BSLASH # ''ud800'' @ BSLASH # ''u'' @ QUOTE # ''aaaaaaaaaaaa'' @ [QUOTE]) 0 = Inr 6 \<and>
   unescape (BSLASH # ''ud800'' @ BSLASH # ''u'' @ QUOTE # ''aaaaaaaaaaaa'' @ [QUOTE])
     = Inr (''aaaaaaaaa'', [QUOTE]) \<and>
   parse_string (QUOTE # BSLASH # ''ud800'' @ BSLASH # ''u'' @ QUOTE # ''aaaaaaaaaaaa'' @ [QUOTE])
     = Inl Undefined"
  by (simp add: parse_string_def string_length_pass.simps unescape.simps escape_step_def
      escape_u_def advance_def parse_hex4_def hexval_def Let_def QUOTE_def BSLASH_def NUL_def)

text \<open>
  C10, at an input where the code fails it. In the string \<^verbatim>\<open>"\u"aaaaaaaaaaaaaaaa"\<close> the
  four characters after \<^verbatim>\<open>\u\<close> are \<^verbatim>\<open>"aaa\<close>, not hexadecimal digits. The first loop
  stops at that quote with \<open>len = 1\<close>, so the block has 2 bytes; the second loop drops
  the escape with its four characters and then copies the thirteen remaining \<open>a\<close>
  and a NUL: it writes 14 bytes, past the end of the block.
\<close>

theorem parse_string_hex_overflow:
  "string_length_pass (BSLASH # ''u'' @ QUOTE # ''aaaaaaaaaaaaaaaa'' @ [QUOTE]) 0 = Inr 1 \<and>
   unescape (BSLASH # ''u'' @ QUOTE # ''aaaaaaaaaaaaaaaa'' @ [QUOTE])
     = Inr (''aaaaaaaaaaaaa'', [QUOTE]) \<and>
   parse_string (QUOTE # BSLASH # ''u'' @ QUOTE # ''aaaaaaaaaaaaaaaa'' @ [QUOTE])
     = Inl Undefined"
  by (simp add: parse_string_def string_length_pass.simps unescape.simps escape_step_def
      escape_u_def advance_def parse_hex4_def hexval_def Let_def QUOTE_def BSLASH_def NUL_def)

section \<open>Properties of the number codec\<close>

subsection \<open>Decimal digits\<close>

lemma of_char_digit_char: "0 \<le> n \<Longrightarrow> n < 10 \<Longrightarrow> (of_char (digit_char n) :: nat) = 48 + nat n"
proof -
  assume a: "0 \<le> n" "n < 10"
  have "digit_char n = char_of (int (48 + nat n))" using a by (simp add: digit_char_def)
  also have "\<dots> = char_of (48 + nat n)" by (rule char_of_nat)
  finally show ?thesis using a by (simp del: char_of_nat)
qed

lemma is_digit_digit_char: "0 \<le> n \<Longrightarrow> n < 10 \<Longrightarrow> is_digit (digit_char n)"
  by (simp add: is_digit_def of_char_digit_char)

lemma decimal_digits: "0 \<le> n \<Longrightarrow> c \<in> set (decimal n) \<Longrightarrow> is_digit c"
proof (induction n arbitrary: c rule: decimal.induct)
  case (1 n)
  show ?case
  proof (cases "n < 10")
    case True
    then show ?thesis using 1(2,3) by (simp add: decimal.simps[of n] is_digit_digit_char)
  next
    case False
    then have "c \<in> set (decimal (n div 10)) \<or> c = digit_char (n mod 10)"
      using 1(3) by (auto simp add: decimal.simps[of n])
    then show ?thesis using 1(1)[OF False] 1(2) False by (auto simp: is_digit_digit_char)
  qed
qed

lemma decimal_not_Nil: "decimal n \<noteq> []"
  by (simp add: decimal.simps[of n])

lemma decimal_length: "0 \<le> n \<Longrightarrow> n < 10 ^ k \<Longrightarrow> 0 < k \<Longrightarrow> length (decimal n) \<le> k"
proof (induction n arbitrary: k rule: decimal.induct)
  case (1 n)
  show ?case
  proof (cases "n < 10")
    case True
    then show ?thesis using 1(4) by (simp add: decimal.simps[of n])
  next
    case False
    then obtain j where k: "k = Suc j" "0 < j" using 1(3,4) by (cases k; cases "k - 1") auto
    have "n div 10 < 10 ^ j" using 1(3) k by simp
    then have "length (decimal (n div 10)) \<le> j" using 1(1)[OF False _ _ k(2)] 1(2) by simp
    then show ?thesis using False k by (simp add: decimal.simps[of n])
  qed
qed

lemma decimal_bounds: "1 \<le> n \<Longrightarrow> 10 ^ (length (decimal n) - 1) \<le> n \<and> n < 10 ^ length (decimal n)"
proof (induction n rule: decimal.induct)
  case (1 n)
  show ?case
  proof (cases "n < 10")
    case True
    then show ?thesis using 1(2) by (simp add: decimal.simps[of n])
  next
    case False
    then have ih: "10 ^ (length (decimal (n div 10)) - 1) \<le> n div 10" "n div 10 < 10 ^ length (decimal (n div 10))"
      using 1(1)[OF False] by simp_all
    have len: "length (decimal n) = Suc (length (decimal (n div 10)))" using False by (simp add: decimal.simps[of n])
    have pos: "0 < length (decimal (n div 10))" using decimal_not_Nil by simp
    have "10 * 10 ^ (length (decimal (n div 10)) - 1) \<le> n" using ih(1) by linarith
    moreover have "(10::int) * 10 ^ (length (decimal (n div 10)) - 1) = 10 ^ length (decimal (n div 10))"
      using pos by (cases "length (decimal (n div 10))") simp_all
    moreover have "n < 10 * 10 ^ length (decimal (n div 10))" using ih(2) by linarith
    ultimately show ?thesis using len by simp
  qed
qed

lemma hd_decimal: "1 \<le> n \<Longrightarrow> 49 \<le> (of_char (hd (decimal n)) :: nat) \<and> (of_char (hd (decimal n)) :: nat) \<le> 57"
proof (induction n rule: decimal.induct)
  case (1 n)
  show ?case
  proof (cases "n < 10")
    case True
    then show ?thesis using 1(2) by (simp add: decimal.simps[of n] of_char_digit_char) linarith
  next
    case False
    then show ?thesis using 1(1)[OF False] decimal_not_Nil[of "n div 10"]
      by (simp add: decimal.simps[of n])
  qed
qed

subsection \<open>Values that rounding leaves as they are\<close>

lemma pow2_powi: "pow2 k = 2 powi k"
  by (simp add: pow2_def power_int_def power_one_over)

lemma pow2_pos: "0 < pow2 k"
  by (simp add: pow2_powi)

lemma pow2_mono: "a \<le> b \<Longrightarrow> pow2 a \<le> pow2 b"
  by (simp add: pow2_powi power_int_increasing)

lemma round_even_of_int: "round_even (of_int m) = m"
  by (simp add: round_even_def Let_def)

lemma quotient_of_abs:
  assumes "q \<noteq> 0" and "quotient_of \<bar>q\<bar> = (a, b)"
  shows "0 < a" and "0 < b" and "\<bar>q\<bar> = of_int a / of_int b"
proof -
  show b: "0 < b" using assms(2) by (rule quotient_of_denom_pos)
  show q: "\<bar>q\<bar> = of_int a / of_int b" using assms(2) by (rule quotient_of_div)
  have "0 < \<bar>q\<bar>" using assms(1) by simp
  then have "0 < (of_int a :: rat) / of_int b" using q by simp
  then show "0 < a" using b by (simp add: zero_less_divide_iff)
qed

lemma binexp_le:
  assumes "q \<noteq> 0"
  shows "pow2 (binexp q) \<le> \<bar>q\<bar>"
proof -
  obtain a b where ab: "quotient_of \<bar>q\<bar> = (a, b)" by (cases "quotient_of \<bar>q\<bar>")
  note f = quotient_of_abs[OF assms ab]
  define k where "k = bitlen a - bitlen b"
  show ?thesis
  proof (cases "pow2 k \<le> \<bar>q\<bar>")
    case True
    then show ?thesis by (simp add: binexp_def ab k_def Let_def)
  next
    case False
    then have e: "binexp q = k - 1" by (simp add: binexp_def ab k_def Let_def)
    have pos: "0 < bitlen x" if "0 < x" for x
    proof (rule ccontr)
      assume "\<not> 0 < bitlen x"
      then have "nat (bitlen x) = 0" by simp
      then show False using bitlen_bounds[OF that] by auto
    qed
    have la: "0 < bitlen a" and lb: "0 < bitlen b" using f pos by simp_all
    have "(2::int) ^ nat (bitlen a - 1) \<le> a" using bitlen_bounds[OF f(1)] by simp
    then have "(of_int ((2::int) ^ nat (bitlen a - 1)) :: rat) \<le> of_int a" by (simp only: of_int_le_iff)
    then have 1: "(2::rat) powi (bitlen a - 1) \<le> of_int a" using la by (simp add: power_int_def)
    have "b < 2 ^ nat (bitlen b)" using bitlen_bounds[OF f(2)] by simp
    then have "(of_int b :: rat) < of_int ((2::int) ^ nat (bitlen b))" by (simp only: of_int_less_iff)
    then have 2: "(of_int b :: rat) < 2 powi (bitlen b)" using lb by (simp add: power_int_def)
    have "(2::rat) powi (k - 1) = 2 powi (bitlen a - 1) / 2 powi (bitlen b)"
      by (simp add: k_def power_int_diff)
    also have "\<dots> \<le> of_int a / 2 powi (bitlen b)"
      using 1 by (simp add: divide_right_mono)
    also have "\<dots> \<le> of_int a / of_int b"
      using 2 f by (simp add: frac_le)
    finally show ?thesis using e f(3) by (simp add: pow2_powi)
  qed
qed

lemma binexp_less:
  assumes "q \<noteq> 0" and "\<bar>q\<bar> < pow2 n"
  shows "binexp q < n"
proof (rule ccontr)
  assume "\<not> binexp q < n"
  then have "pow2 n \<le> pow2 (binexp q)" by (simp add: pow2_mono)
  then show False using binexp_le[OF assms(1)] assms(2) by simp
qed

lemma round_double_exact:
  assumes "q = of_int m * pow2 (max (binexp q) (- 1022) - 52)" and "\<bar>q\<bar> < pow2 1024"
  shows "round_double q = Finite q"
proof (cases "q = 0")
  case True
  then show ?thesis by (simp add: round_double_def)
next
  case False
  define u where "u = pow2 (max (binexp q) (- 1022) - 52)"
  have u: "0 < u" by (simp add: u_def pow2_pos)
  have "q / u = of_int m" using assms(1) u by (simp add: u_def[symmetric])
  then have "of_int (round_even (q / u)) * u = q"
    using assms(1) by (simp add: round_even_of_int u_def[symmetric])
  then show ?thesis using False assms(2)
    by (simp add: round_double_def Let_def u_def[symmetric])
qed

lemma round_double_int:
  assumes "\<bar>k\<bar> < 2 ^ 53"
  shows "round_double (of_int k) = Finite (of_int k)"
proof (cases "k = 0")
  case True
  then show ?thesis by (simp add: round_double_def)
next
  case False
  define q :: rat where "q = of_int k"
  have q0: "q \<noteq> 0" using False by (simp add: q_def)
  have "\<bar>q\<bar> = of_int \<bar>k\<bar>" by (simp add: q_def)
  also have "\<dots> < of_int (2 ^ 53)" using assms by (simp only: of_int_less_iff)
  finally have lt: "\<bar>q\<bar> < pow2 53" by (simp add: pow2_def)
  have "binexp q < 53" using binexp_less[OF q0 lt] .
  then have e: "max (binexp q) (- 1022) - 52 \<le> 0" by simp
  define n where "n = nat (- (max (binexp q) (- 1022) - 52))"
  have p: "pow2 (max (binexp q) (- 1022) - 52) = 1 / 2 ^ n"
    using e by (auto simp add: pow2_def n_def)
  have "q = of_int (k * 2 ^ n) * pow2 (max (binexp q) (- 1022) - 52)"
    unfolding p by (simp add: q_def)
  moreover have "\<bar>q\<bar> < pow2 1024"
    using lt pow2_mono[of 53 1024] by simp
  ultimately have "round_double q = Finite q" by (rule round_double_exact)
  then show ?thesis by (simp add: q_def)
qed

lemma round_double_dyadic:
  assumes "\<bar>m\<bar> < 2 ^ 53" and "j \<le> 1074"
  shows "round_double (of_int m / 2 ^ j) = Finite (of_int m / 2 ^ j)"
proof (cases "m = 0")
  case True
  then show ?thesis by (simp add: round_double_def)
next
  case False
  define q :: rat where "q = of_int m / 2 ^ j"
  have q0: "q \<noteq> 0" using False by (simp add: q_def)
  have qp: "q = of_int m * 2 powi (- int j)"
    by (simp add: q_def power_int_minus field_simps)
  have "\<bar>(of_int m :: rat)\<bar> < of_int (2 ^ 53)"
    unfolding of_int_abs[symmetric] of_int_less_iff using assms(1) .
  then have am: "\<bar>(of_int m :: rat)\<bar> < 2 powi 53" by simp
  have "\<bar>q\<bar> = \<bar>of_int m\<bar> * 2 powi (- int j)" by (simp add: qp abs_mult)
  also have "\<dots> < 2 powi 53 * 2 powi (- int j)" using am by (simp add: mult_strict_right_mono)
  also have "\<dots> = 2 powi (53 - int j)" by (simp add: power_int_diff power_int_minus field_simps)
  finally have lt: "\<bar>q\<bar> < pow2 (53 - int j)" by (simp add: pow2_powi)
  have "binexp q < 53 - int j" using binexp_less[OF q0 lt] .
  then have e: "max (binexp q) (- 1022) - 52 \<le> - int j" using assms(2) by simp
  define n where "n = nat (- int j - (max (binexp q) (- 1022) - 52))"
  have "(2::rat) powi (- int j) = 2 powi (int n + (max (binexp q) (- 1022) - 52))"
    using e by (simp add: n_def)
  also have "\<dots> = 2 ^ n * 2 powi (max (binexp q) (- 1022) - 52)"
    by (simp add: power_int_add)
  finally have "q = of_int (m * 2 ^ n) * pow2 (max (binexp q) (- 1022) - 52)"
    by (simp add: qp pow2_powi)
  moreover have "\<bar>q\<bar> < pow2 1024"
  proof -
    have "pow2 (53 - int j) \<le> pow2 1024" by (rule pow2_mono) simp
    then show ?thesis using lt by simp
  qed
  ultimately have "round_double q = Finite q" by (rule round_double_exact)
  then show ?thesis by (simp add: q_def)
qed

subsection \<open>Parsing a printed whole number\<close>

lemma literal_1e60: "round_double (10 ^ 60) = Finite 999999999999999949387135297074018866963645011013410073083904"
  by code_simp

lemma literal_1e9: "round_double (10 ^ 9) = Finite 1000000000"
  by code_simp

lemma literal_1em6: "round_double (1 / 10 ^ 6) = Finite (4722366482869645 / 4722366482869645213696)"
  by code_simp

lemma digits_loop_step:
  assumes "0 \<le> a" "0 \<le> d" "d < 10" "a * 10 + d < 2 ^ 53"
  shows "digits_loop (digit_char d # rest) (Finite (of_int a)) = digits_loop rest (Finite (of_int (a * 10 + d)))"
proof -
  have 1: "round_double (of_int a * 10) = Finite (of_int a * 10)"
    using round_double_int[of "a * 10"] assms by simp
  have 2: "digit_value (digit_char d) = Finite (of_int d)"
    using assms by (simp add: digit_value_def of_char_digit_char)
  have 3: "round_double (of_int a * 10 + of_int d) = Finite (of_int a * 10 + of_int d)"
    using round_double_int[of "a * 10 + d"] assms by simp
  show ?thesis using assms by (simp add: is_digit_digit_char 1 2 3)
qed

lemma digits_loop_decimal:
  assumes "0 \<le> a" "0 \<le> n" "a * 10 ^ length (decimal n) + n < 2 ^ 53"
  shows "digits_loop (decimal n @ rest) (Finite (of_int a))
         = digits_loop rest (Finite (of_int (a * 10 ^ length (decimal n) + n)))"
  using assms
proof (induction n arbitrary: a rest rule: decimal.induct)
  case (1 n)
  show ?case
  proof (cases "n < 10")
    case True
    then show ?thesis using 1(2-) digits_loop_step[of a n rest]
      by (simp add: decimal.simps[of n])
  next
    case False
    define m where "m = length (decimal (n div 10))"
    define a' where "a' = a * 10 ^ m + n div 10"
    have d: "decimal n = decimal (n div 10) @ [digit_char (n mod 10)]"
      using False by (simp add: decimal.simps[of n])
    have e: "a' * 10 + n mod 10 = a * 10 ^ length (decimal n) + n"
      by (simp add: a'_def d m_def algebra_simps)
    have a0: "0 \<le> a'" using 1(2,3) by (simp add: a'_def)
    have "a' \<le> a' * 10 + n mod 10" using a0 by simp
    then have b: "a' < 2 ^ 53" using e 1(4) by simp
    have "digits_loop (decimal n @ rest) (Finite (of_int a))
        = digits_loop (decimal (n div 10) @ (digit_char (n mod 10) # rest)) (Finite (of_int a))"
      by (simp add: d)
    also have "\<dots> = digits_loop (digit_char (n mod 10) # rest) (Finite (of_int a'))"
      using 1(1)[OF False 1(2), of "digit_char (n mod 10) # rest"] 1(3) b
      by (simp add: a'_def m_def)
    also have "\<dots> = digits_loop rest (Finite (of_int (a' * 10 + n mod 10)))"
      using a0 e 1(4) by (intro digits_loop_step) simp_all
    finally show ?thesis by (simp only: e)
  qed
qed

lemma deref_append: "xs \<noteq> [] \<Longrightarrow> deref (xs @ ys) = hd xs"
  by (cases xs) simp_all

lemma digits_loop_stop: "\<not> is_digit (deref rest) \<Longrightarrow> digits_loop rest n = (n, rest)"
  by (cases rest) simp_all

lemma pow_10_0: "pow_10 0 = Finite 1"
  using round_double_int[of 1] by (simp add: pow_10_def pow10_def)

lemma wrap32_0: "wrap32 0 = 0"
  by (simp add: wrap32_def)

lemma parse_number_whole:
  assumes sign: "(if deref num0 = CHR ''-'' then (Finite (- 1), tl num0) else (Finite 1, num0)) = (Finite sg, num1)"
    and zero: "(if deref num1 = CHR ''0'' then tl num1 else num1) = num2"
    and digits: "(if 49 \<le> (of_char (deref num2) :: nat) \<and> (of_char (deref num2) :: nat) \<le> 57
                 then digits_loop num2 (Finite 0) else (Finite 0, num2)) = (Finite (of_int a), rest)"
    and rest: "\<not> is_digit (deref rest)" "deref rest \<noteq> CHR ''.''" "deref rest \<noteq> CHR ''e''"
      "deref rest \<noteq> CHR ''E''"
    and val: "round_double (sg * of_int a) = Finite (of_int k)"
    and k: "\<bar>k\<bar> < 2 ^ 53"
  shows "parse_number num0 = ((int_of_double (Finite (of_int k)), Finite (of_int k)), rest)"
proof -
  have 1: "round_double (of_int k) = Finite (of_int k)"
    using round_double_int[of k] k by simp
  show ?thesis
    unfolding parse_number_def
    apply (simp only: sign zero digits Let_def prod.case)
    apply (simp add: rest pow_10_0 wrap32_0 val 1)
    done
qed

lemma parse_number_sprintf_d:
  assumes "\<bar>k\<bar> < 2 ^ 53" and "\<not> is_digit (deref rest)" and "deref rest \<noteq> CHR ''.''"
    and "deref rest \<noteq> CHR ''e''" and "deref rest \<noteq> CHR ''E''"
  shows "parse_number (sprintf_d k @ rest) = ((int_of_double (Finite (of_int k)), Finite (of_int k)), rest)"
proof -
  have run: "digits_loop (decimal n @ rest) (Finite 0) = (Finite (of_int n), rest)"
    if "1 \<le> n" "n < 2 ^ 53" for n
    using digits_loop_decimal[of 0 n rest] that digits_loop_stop[OF assms(2)] by simp
  have first: "deref (decimal n @ rest) \<noteq> CHR ''-'' \<and> deref (decimal n @ rest) \<noteq> CHR ''0'' \<and>
      49 \<le> (of_char (deref (decimal n @ rest)) :: nat) \<and> (of_char (deref (decimal n @ rest)) :: nat) \<le> 57"
    if "1 \<le> n" for n
    using hd_decimal[OF that] by (auto simp: deref_append decimal_not_Nil)
  have r0: "round_double 0 = Finite 0" by (simp add: round_double_def)
  consider "k = 0" | "1 \<le> k" | "k \<le> - 1" by linarith
  then show ?thesis
  proof cases
    case 1
    have "(of_char (digit_char 0) :: nat) = of_char CHR ''0''" by (simp add: of_char_digit_char)
    then have "digit_char 0 = CHR ''0''" by (simp only: of_char_eq_iff)
    then have z: "sprintf_d 0 = ''0''" by (simp add: sprintf_d_def decimal.simps[of 0])
    have nd: "\<not> (49 \<le> (of_char (deref rest) :: nat) \<and> (of_char (deref rest) :: nat) \<le> 57)"
      using assms(2) by (auto simp: is_digit_def)
    show ?thesis unfolding 1 z
      by (rule parse_number_whole[where sg = 1 and a = 0 and ?num1.0 = "''0'' @ rest" and ?num2.0 = rest])
        (use nd assms r0 digits_loop_stop[OF assms(2)] in simp_all)
  next
    case 2
    then have s: "sprintf_d k = decimal k" by (simp add: sprintf_d_def)
    have v: "round_double (of_int k) = Finite (of_int k)" using round_double_int[of k] assms(1) by simp
    show ?thesis unfolding s
      by (rule parse_number_whole[where sg = 1 and a = k and ?num1.0 = "decimal k @ rest"
            and ?num2.0 = "decimal k @ rest"])
        (use first[OF 2] run[OF 2] assms v in simp_all)
  next
    case 3
    then have s: "sprintf_d k = CHR ''-'' # decimal (- k)" by (simp add: sprintf_d_def)
    have a: "1 \<le> - k" using 3 by simp
    have v: "round_double (of_int k) = Finite (of_int k)" using round_double_int[of k] assms(1) by simp
    show ?thesis unfolding s
      by (rule parse_number_whole[where sg = "- 1" and a = "- k" and ?num1.0 = "decimal (- k) @ rest"
            and ?num2.0 = "decimal (- k) @ rest"])
        (use first[OF a] run[OF a] assms v in simp_all)
  qed
qed

subsection \<open>The branches of \<^verbatim>\<open>print_number\<close>\<close>

lemma whole_numberE:
  assumes "whole_number vi d"
  obtains k where "\<bar>k\<bar> < 2 ^ 53" "d = Finite (of_int k)" "vi = int_of_double (Finite (of_int k))"
proof -
  from assms obtain q where q: "d = Finite q" "q = of_int \<lfloor>q\<rfloor>" "\<bar>q\<bar> < 2 ^ 53" "vi = int_of_double d"
    by (auto simp: whole_number_def split: double.splits)
  have "\<bar>(of_int \<lfloor>q\<rfloor> :: rat)\<bar> < of_int (2 ^ 53)" using q(2,3) by simp
  then have "\<bar>\<lfloor>q\<rfloor>\<bar> < 2 ^ 53" unfolding of_int_abs[symmetric] of_int_less_iff .
  then show ?thesis using that[of "\<lfloor>q\<rfloor>"] q by simp
qed

lemma sprintf_0f_int: "sprintf_0f (Finite (of_int k)) = sprintf_d k"
  by (simp add: sprintf_0f_def sprintf_d_def sign_prefix_def round_even_of_int flip: of_int_abs)

lemma print_number_zero: "print_number valueint (Finite 0) = ''0''"
  by (simp add: print_number_def)

lemma print_number_int:
  assumes "d \<noteq> Finite 0"
    and "dle (dfabs (dsub (double_of_int valueint) d)) DBL_EPSILON
         \<and> dle d (double_of_int INT_MAX) \<and> dle (double_of_int INT_MIN) d"
  shows "print_number valueint d = sprintf_d valueint"
  unfolding print_number_def using assms by (simp only: if_True if_False simp_thms)

lemma print_number_0f:
  assumes "d \<noteq> Finite 0"
    and "\<not> (dle (dfabs (dsub (double_of_int valueint) d)) DBL_EPSILON
         \<and> dle d (double_of_int INT_MAX) \<and> dle (double_of_int INT_MIN) d)"
    and "dle (dfabs (dsub (dfloor d) d)) DBL_EPSILON \<and> dlt (dfabs d) (round_double (10 ^ 60))"
  shows "print_number valueint d = sprintf_0f d"
  unfolding print_number_def using assms by (simp only: if_True if_False simp_thms)

lemma print_number_e:
  assumes "d \<noteq> Finite 0"
    and "\<not> (dle (dfabs (dsub (double_of_int valueint) d)) DBL_EPSILON
         \<and> dle d (double_of_int INT_MAX) \<and> dle (double_of_int INT_MIN) d)"
    and "\<not> (dle (dfabs (dsub (dfloor d) d)) DBL_EPSILON \<and> dlt (dfabs d) (round_double (10 ^ 60)))"
    and "dlt (dfabs d) (round_double (1 / 10 ^ 6)) \<or> dlt (round_double (10 ^ 9)) (dfabs d)"
  shows "print_number valueint d = sprintf_e d"
  unfolding print_number_def using assms by (simp only: if_True if_False simp_thms)

lemma print_number_f:
  assumes "d \<noteq> Finite 0"
    and "\<not> (dle (dfabs (dsub (double_of_int valueint) d)) DBL_EPSILON
         \<and> dle d (double_of_int INT_MAX) \<and> dle (double_of_int INT_MIN) d)"
    and "\<not> (dle (dfabs (dsub (dfloor d) d)) DBL_EPSILON \<and> dlt (dfabs d) (round_double (10 ^ 60)))"
    and "\<not> (dlt (dfabs d) (round_double (1 / 10 ^ 6)) \<or> dlt (round_double (10 ^ 9)) (dfabs d))"
  shows "print_number valueint d = sprintf_f d"
  unfolding print_number_def using assms by (simp only: if_True if_False simp_thms)

lemma print_number_whole:
  assumes "\<bar>k\<bar> < 2 ^ 53"
  shows "print_number (int_of_double (Finite (of_int k))) (Finite (of_int k)) = sprintf_d k"
proof -
  have r0: "round_double 0 = Finite 0" by (simp add: round_double_def)
  have same: "dfabs (dsub (Finite (of_int k)) (Finite (of_int k))) = Finite 0"
    by (simp add: dsub_def dneg_def dfabs_def r0)
  have eps: "dle (Finite 0) DBL_EPSILON" by (simp add: DBL_EPSILON_def pow2_def)
  have fl: "dfloor (Finite (of_int k)) = Finite (of_int k)" by (simp add: dfloor_def)
  have mx: "double_of_int INT_MAX = Finite (of_int INT_MAX)"
    unfolding double_of_int_def by (rule round_double_int) (simp add: INT_MAX_def)
  have mn: "double_of_int INT_MIN = Finite (of_int INT_MIN)"
    unfolding double_of_int_def by (rule round_double_int) (simp add: INT_MIN_def)
  have big: "dlt (dfabs (Finite (of_int k))) (round_double (10 ^ 60))"
  proof -
    have "\<bar>(of_int k :: rat)\<bar> < of_int (2 ^ 53)" unfolding of_int_abs[symmetric] of_int_less_iff using assms .
    then show ?thesis unfolding literal_1e60 dfabs_def by simp
  qed
  show ?thesis
  proof (cases "k = 0")
    case True
    have "(of_char (digit_char 0) :: nat) = of_char CHR ''0''" by (simp add: of_char_digit_char)
    then have "digit_char 0 = CHR ''0''" by (simp only: of_char_eq_iff)
    then show ?thesis using True by (simp add: print_number_def sprintf_d_def decimal.simps[of 0])
  next
    case False
    then have nz: "Finite (of_int k) \<noteq> Finite 0" by simp
    show ?thesis
    proof (cases "INT_MIN \<le> k \<and> k \<le> INT_MAX")
      case True
      then have vi: "int_of_double (Finite (of_int k)) = k" by (simp add: int_of_double_def)
      have "double_of_int k = Finite (of_int k)"
        unfolding double_of_int_def using assms by (rule round_double_int)
      show ?thesis unfolding vi
        by (rule print_number_int) (use True nz \<open>double_of_int k = Finite (of_int k)\<close> in \<open>simp_all add: same eps mx mn\<close>)
    next
      case False
      then have "\<not> (dle (Finite (of_int k)) (double_of_int INT_MAX) \<and> dle (double_of_int INT_MIN) (Finite (of_int k)))"
        by (auto simp add: mx mn)
      then have "print_number (int_of_double (Finite (of_int k))) (Finite (of_int k)) = sprintf_0f (Finite (of_int k))"
        using nz big by (intro print_number_0f) (simp_all only: fl same eps simp_thms)
      then show ?thesis by (simp only: sprintf_0f_int)
    qed
  qed
qed

lemma digit_char_eq: "0 \<le> n \<Longrightarrow> n < 10 \<Longrightarrow> (of_char c :: nat) = 48 + nat n \<Longrightarrow> digit_char n = c"
  using of_char_digit_char[of n] by (simp only: of_char_eq_iff flip: of_char_eq_iff[where 'a = nat])

lemma digit_char_simps:
  "digit_char 0 = CHR ''0''" "digit_char 1 = CHR ''1''" "digit_char 2 = CHR ''2''"
  "digit_char 3 = CHR ''3''" "digit_char 4 = CHR ''4''" "digit_char 5 = CHR ''5''"
  "digit_char 6 = CHR ''6''" "digit_char 7 = CHR ''7''" "digit_char 8 = CHR ''8''"
  "digit_char 9 = CHR ''9''"
  by (rule digit_char_eq; simp)+

lemma round_double_numeral:
  "(numeral w :: int) < 2 ^ 53 \<Longrightarrow> round_double (numeral w) = Finite (numeral w)"
  using round_double_int[of "numeral w"] by simp

lemma round_double_0: "round_double 0 = Finite 0"
  by (simp add: round_double_def)

lemma pow_10_m6: "pow_10 (- 6) = Finite (4722366482869645 / 4722366482869645213696)"
  using literal_1em6 by (simp add: pow_10_def pow10_def)

lemma sprintf_f_sample: "sprintf_f (Finite (1 / 1024)) = ''0.000977''"
proof -
  have "\<lfloor>15625 / 16 :: rat\<rfloor> = 976" by (simp add: floor_eq_iff)
  then have "round_even (15625 / 16) = 977" by (simp add: round_even_def)
  then show ?thesis
    by (simp add: sprintf_f_def six_digits_def decimal.simps digit_char_simps sign_prefix_def Let_def)
qed

lemma print_number_sample: "print_number 0 (Finite (1 / 1024)) = ''0.000977''"
proof -
  have r: "round_double (- (1 / 1024)) = Finite (- (1 / 1024))"
    using round_double_dyadic[of "- 1" 10] by simp
  have d: "dsub (Finite 0) (Finite (1 / 1024)) = Finite (- (1 / 1024))"
    by (simp add: dsub_def dneg_def r)
  have 1: "\<not> (dle (dfabs (dsub (double_of_int 0) (Finite (1 / 1024)))) DBL_EPSILON
         \<and> dle (Finite (1 / 1024)) (double_of_int INT_MAX) \<and> dle (double_of_int INT_MIN) (Finite (1 / 1024)))"
    by (simp add: double_of_int_def round_double_0 d dfabs_def DBL_EPSILON_def pow2_def)
  have fl: "\<lfloor>1 / 1024 :: rat\<rfloor> = 0" by (simp add: floor_eq_iff)
  have 2: "\<not> (dle (dfabs (dsub (dfloor (Finite (1 / 1024))) (Finite (1 / 1024)))) DBL_EPSILON
         \<and> dlt (dfabs (Finite (1 / 1024))) (round_double (10 ^ 60)))"
    by (simp add: dfloor_def fl d dfabs_def DBL_EPSILON_def pow2_def)
  have 3: "\<not> (dlt (dfabs (Finite (1 / 1024))) (round_double (1 / 10 ^ 6))
         \<or> dlt (round_double (10 ^ 9)) (dfabs (Finite (1 / 1024))))"
    unfolding literal_1em6 literal_1e9 by (simp add: dfabs_def)
  show ?thesis using print_number_f[OF _ 1 2 3] by (simp add: sprintf_f_sample)
qed

lemma fraction_loop_sample: "fraction_loop ''000977'' (Finite 0) 0 = (Finite 977, - 6, [])"
  by (simp add: is_digit_def digit_value_def round_double_0 round_double_numeral)

lemma product_sample:
  "round_double (4613752053763643165 / 4722366482869645213696)
   = Finite (2252808620001779 / 2305843009213693952)"
  by code_simp

lemma parse_number_sample:
  "parse_number ''0.000977'' = ((0, Finite (2252808620001779 / 2305843009213693952)), [])"
  unfolding parse_number_def
  apply (simp only: deref.simps list.sel Let_def prod.case fraction_loop_sample)
  apply (simp add: is_digit_def fraction_loop_sample wrap32_0 pow_10_m6 round_double_numeral product_sample
      int_of_double_def INT_MIN_def INT_MAX_def NUL_def floor_eq_iff del: fraction_loop.simps)
  done

section \<open>The notation of a printed number\<close>

lemma digit_string_decimal: "0 \<le> n \<Longrightarrow> digit_string (decimal n)"
  using decimal_digits[of n] by (auto simp: digit_string_def decimal_not_Nil list_all_iff)

lemma is_digit_neq: "is_digit c \<Longrightarrow> c \<noteq> CHR ''-'' \<and> c \<noteq> CHR ''.'' \<and> c \<noteq> CHR ''e''"
  by (auto simp: is_digit_def)

lemma without_sign_digits: "digit_string s \<Longrightarrow> without_sign s = s"
  by (cases s) (auto simp: without_sign_def digit_string_def is_digit_def)

lemma without_sign_sign: "without_sign (sign_prefix q @ s) = without_sign s" if "digit_string s"
  using that without_sign_digits[OF that] by (auto simp: sign_prefix_def without_sign_def)

lemma plain_integer_sprintf_d: "plain_integer (sprintf_d i)"
proof (cases "i < 0")
  case True
  then show ?thesis using digit_string_decimal[of "- i"]
    by (simp add: plain_integer_def sprintf_d_def without_sign_def)
next
  case False
  then show ?thesis using digit_string_decimal[of i]
    by (simp add: plain_integer_def sprintf_d_def without_sign_digits)
qed

lemma round_even_nonneg: "0 \<le> q \<Longrightarrow> 0 \<le> round_even q"
  by (auto simp: round_even_def Let_def)

lemma plain_integer_sprintf_0f: "plain_integer (sprintf_0f (Finite q))"
proof -
  have d: "digit_string (decimal (round_even \<bar>q\<bar>))"
    by (rule digit_string_decimal[OF round_even_nonneg]) simp
  show ?thesis
    by (simp add: plain_integer_def sprintf_0f_def without_sign_sign[OF d] without_sign_digits[OF d] d)
qed

lemma digit_string_six: "0 \<le> n \<Longrightarrow> digit_string (six_digits n) \<and> length (six_digits n) = 6"
  by (simp add: six_digits_def digit_string_def is_digit_digit_char)

lemma takeWhile_digits:
  assumes "digit_string w" and "\<not> is_digit c"
  shows "takeWhile (\<lambda>x. x \<noteq> c) (w @ c # f) = w"
proof -
  have "\<forall>x \<in> set w. x \<noteq> c" using assms by (auto simp: digit_string_def list_all_iff)
  then show ?thesis by (simp add: takeWhile_append2)
qed

lemma fixed_point_parts:
  assumes "digit_string w" and "digit_string f" and "length f = 6"
  shows "fixed_point (sign_prefix q @ w @ ''.'' @ f)"
proof -
  have d: "digit_string (w @ ''.'' @ f) \<or> True" by simp
  have u: "without_sign (sign_prefix q @ w @ CHR ''.'' # f) = w @ CHR ''.'' # f"
  proof -
    obtain c cs where w: "w = c # cs" "is_digit c" using assms(1) by (cases w) (auto simp: digit_string_def)
    then have "c \<noteq> CHR ''-''" using is_digit_neq by blast
    then show ?thesis using w by (auto simp: sign_prefix_def without_sign_def)
  qed
  have t: "takeWhile (\<lambda>x. x \<noteq> CHR ''.'') (w @ CHR ''.'' # f) = w"
    by (rule takeWhile_digits[OF assms(1)]) (simp add: is_digit_def)
  show ?thesis using assms by (simp add: fixed_point_def u t Let_def)
qed

lemma fixed_point_sprintf_f: "fixed_point (sprintf_f (Finite q))"
proof -
  have r: "0 \<le> round_even (\<bar>q\<bar> * 10 ^ 6)" by (rule round_even_nonneg) simp
  then have 1: "0 \<le> round_even (\<bar>q\<bar> * 10 ^ 6) div 10 ^ 6" "0 \<le> round_even (\<bar>q\<bar> * 10 ^ 6) mod 10 ^ 6"
    by (simp_all add: pos_imp_zdiv_nonneg_iff)
  show ?thesis
    unfolding sprintf_f_def double.case Let_def
    by (rule fixed_point_parts) (use 1 digit_string_decimal digit_string_six in auto)
qed

lemma exponential_parts:
  assumes "digit_string w" and "digit_string f" and "length f = 6"
    and "digit_string ds" and "2 \<le> length ds" and "sg = CHR ''+'' \<or> sg = CHR ''-''"
  shows "exponential (sign_prefix q @ w @ ''.'' @ f @ ''e'' @ sg # ds)"
proof -
  define M where "M = sign_prefix q @ w @ ''.'' @ f"
  have "\<forall>c \<in> set (w @ f). c \<noteq> CHR ''e''"
    using assms(1,2) is_digit_neq by (auto simp: digit_string_def list_all_iff)
  then have "\<forall>c \<in> set M. c \<noteq> CHR ''e''" by (auto simp: M_def sign_prefix_def)
  then have t: "takeWhile (\<lambda>c. c \<noteq> CHR ''e'') (M @ CHR ''e'' # sg # ds) = M"
    by (simp add: takeWhile_append2)
  have f: "fixed_point M" unfolding M_def by (rule fixed_point_parts[OF assms(1-3)])
  have "exponential (M @ CHR ''e'' # sg # ds)"
    unfolding exponential_def t Let_def using f assms(4-6) by auto
  then show ?thesis by (simp add: M_def)
qed

lemma exponential_sprintf_e: "exponential (sprintf_e (Finite q))"
proof (cases "q = 0")
  case True
  have "exponential (sign_prefix 0 @ ''0'' @ ''.'' @ ''000000'' @ ''e'' @ CHR ''+'' # ''00'')"
    by (rule exponential_parts) (simp_all add: digit_string_def is_digit_def)
  then show ?thesis using True by (simp add: sprintf_e_def sign_prefix_def)
next
  case False
  define m0 where "m0 = round_even (\<bar>q\<bar> / pow10 (decexp q) * 10 ^ 6)"
  define m where "m = (if 10 ^ 7 \<le> m0 then m0 div 10 else m0)"
  define x where "x = (if 10 ^ 7 \<le> m0 then decexp q + 1 else decexp q)"
  define ds where "ds = (if length (decimal \<bar>x\<bar>) < 2 then ''0'' @ decimal \<bar>x\<bar> else decimal \<bar>x\<bar>)"
  have s: "sprintf_e (Finite q) = sign_prefix q @ decimal (m div 10 ^ 6) @ ''.'' @ six_digits (m mod 10 ^ 6)
      @ ''e'' @ (if x < 0 then CHR ''-'' else CHR ''+'') # ds"
    using False by (simp add: sprintf_e_def Let_def m0_def m_def x_def ds_def)
  have "0 < pow10 (decexp q)" by (simp add: pow10_def)
  then have "0 \<le> \<bar>q\<bar> / pow10 (decexp q) * 10 ^ 6" by simp
  then have "0 \<le> m0" unfolding m0_def by (rule round_even_nonneg)
  then have m: "0 \<le> m" by (simp add: m_def pos_imp_zdiv_nonneg_iff)
  then have 1: "0 \<le> m div 10 ^ 6" "0 \<le> m mod 10 ^ 6" by (simp_all add: pos_imp_zdiv_nonneg_iff)
  have dx: "digit_string (decimal \<bar>x\<bar>)" by (rule digit_string_decimal) simp
  have ds1: "digit_string ds"
    using dx by (simp add: ds_def digit_string_def is_digit_def)
  have ds2: "2 \<le> length ds"
  proof (cases "length (decimal \<bar>x\<bar>) < 2")
    case True
    moreover have "0 < length (decimal \<bar>x\<bar>)" using decimal_not_Nil[of "\<bar>x\<bar>"] by simp
    ultimately show ?thesis by (simp add: ds_def Suc_le_eq)
  next
    case False
    then show ?thesis by (simp add: ds_def)
  qed
  note ds = ds1 ds2
  show ?thesis unfolding s
    by (rule exponential_parts) (use 1 ds digit_string_decimal digit_string_six in auto)
qed

lemma near_floor_whole:
  assumes "q = of_int \<lfloor>q\<rfloor>"
  shows "near_floor (Finite q)"
proof -
  have "dsub (dfloor (Finite q)) (Finite q) = Finite 0"
    using assms by (simp add: dfloor_def dsub_def dneg_def round_double_0)
  then show ?thesis by (simp add: near_floor_def dfabs_def DBL_EPSILON_def pow2_def)
qed

lemma near_floor_finite: "near_floor d \<Longrightarrow> finite_value d"
  by (cases d) (simp_all add: near_floor_def finite_value_def dfloor_def dsub_def dneg_def dfabs_def)

lemma cache_agrees_finite: "cache_agrees valueint d \<Longrightarrow> finite_value d"
  by (cases d; cases "double_of_int valueint")
    (simp_all add: cache_agrees_def finite_value_def dsub_def dneg_def dfabs_def DBL_EPSILON_def)

lemma magnitude_infinite:
  "\<not> magnitude_below PInf l" "\<not> magnitude_below NInf l" "\<not> magnitude_below NaN l"
  "\<not> magnitude_above NaN l"
  "magnitude_above PInf (10 ^ 9)" "magnitude_above NInf (10 ^ 9)"
  unfolding magnitude_below_def magnitude_above_def literal_1e9
  by (cases "round_double l"; simp add: dfabs_def)+

lemma print_number_infinite:
  assumes "d = PInf \<or> d = NInf"
  shows "print_number valueint d = sprintf_e d"
proof -
  have f: "\<not> finite_value d" using assms by (auto simp: finite_value_def)
  have "d \<noteq> Finite 0" using assms by auto
  moreover have "\<not> cache_agrees valueint d" using f cache_agrees_finite by blast
  moreover have "\<not> near_floor d" using f near_floor_finite by blast
  moreover have "magnitude_above d (10 ^ 9)" using assms magnitude_infinite by blast
  ultimately show ?thesis
    by (intro print_number_e)
      (simp_all add: cache_agrees_def in_int_range_def near_floor_def magnitude_below_def magnitude_above_def)
qed

lemma print_number_NaN: "print_number valueint NaN = sprintf_f NaN"
proof -
  have f: "\<not> finite_value NaN" by (simp add: finite_value_def)
  have "\<not> cache_agrees valueint NaN" using f cache_agrees_finite by blast
  moreover have "\<not> near_floor NaN" using f near_floor_finite by blast
  moreover have "\<not> magnitude_below NaN (1 / 10 ^ 6)" "\<not> magnitude_above NaN (10 ^ 9)"
    using magnitude_infinite by blast+
  ultimately show ?thesis
    by (intro print_number_f)
      (simp_all add: cache_agrees_def in_int_range_def near_floor_def magnitude_below_def magnitude_above_def)
qed

text \<open>
  C3 (as amended). Printing a number node follows a fixed policy. A zero prints as
  \<open>0\<close>. Otherwise, if \<open>valueint\<close> differs from the double by at most \<^verbatim>\<open>DBL_EPSILON\<close> and
  the double lies in the range of \<^verbatim>\<open>int\<close>, the text is \<open>valueint\<close> as a plain integer.
  Otherwise, if the double exceeds its floor by at most \<^verbatim>\<open>DBL_EPSILON\<close> and its
  magnitude is below \<open>1e60\<close>, it prints with no decimals, as a plain integer; every
  whole-valued double passes the test on the floor. Otherwise a magnitude below
  \<open>1e-6\<close> or above \<open>1e9\<close> goes to \<^verbatim>\<open>%e\<close>, which prints a finite double in exponential
  notation, and every other value goes to \<^verbatim>\<open>%f\<close>, which prints a finite double in
  fixed-point notation. An infinity goes to \<^verbatim>\<open>%e\<close> and a NaN to \<^verbatim>\<open>%f\<close>.
\<close>

theorem print_number_policy:
  "(d = Finite 0 \<longrightarrow> print_number valueint d = ''0'') \<and>
   (d \<noteq> Finite 0 \<and> cache_agrees valueint d \<and> in_int_range d \<longrightarrow>
      print_number valueint d = sprintf_d valueint \<and>
      plain_integer (print_number valueint d)) \<and>
   (d \<noteq> Finite 0 \<and> \<not> (cache_agrees valueint d \<and> in_int_range d) \<and>
    near_floor d \<and> magnitude_below d (10 ^ 60) \<longrightarrow>
      print_number valueint d = sprintf_0f d \<and>
      plain_integer (print_number valueint d)) \<and>
   (d \<noteq> Finite 0 \<and> \<not> (cache_agrees valueint d \<and> in_int_range d) \<and>
    \<not> (near_floor d \<and> magnitude_below d (10 ^ 60)) \<and>
    (magnitude_below d (1 / 10 ^ 6) \<or> magnitude_above d (10 ^ 9)) \<longrightarrow>
      print_number valueint d = sprintf_e d \<and>
      (finite_value d \<longrightarrow> exponential (print_number valueint d))) \<and>
   (d \<noteq> Finite 0 \<and> \<not> (cache_agrees valueint d \<and> in_int_range d) \<and>
    \<not> (near_floor d \<and> magnitude_below d (10 ^ 60)) \<and>
    \<not> (magnitude_below d (1 / 10 ^ 6) \<or> magnitude_above d (10 ^ 9)) \<longrightarrow>
      print_number valueint d = sprintf_f d \<and>
      (finite_value d \<longrightarrow> fixed_point (print_number valueint d))) \<and>
   (whole_valued d \<longrightarrow> near_floor d) \<and>
   (d = PInf \<or> d = NInf \<longrightarrow> print_number valueint d = sprintf_e d) \<and>
   (d = NaN \<longrightarrow> print_number valueint d = sprintf_f d)"
proof (intro conjI impI)
  assume "d = Finite 0"
  then show "print_number valueint d = ''0''" by (simp add: print_number_zero)
next
  assume a: "d \<noteq> Finite 0 \<and> cache_agrees valueint d \<and> in_int_range d"
  then show e: "print_number valueint d = sprintf_d valueint"
    by (intro print_number_int) (simp_all add: cache_agrees_def in_int_range_def)
  show "plain_integer (print_number valueint d)"
    unfolding e by (rule plain_integer_sprintf_d)
next
  assume a: "d \<noteq> Finite 0 \<and> \<not> (cache_agrees valueint d \<and> in_int_range d) \<and>
    near_floor d \<and> magnitude_below d (10 ^ 60)"
  then show e: "print_number valueint d = sprintf_0f d"
    by (intro print_number_0f) (simp_all add: cache_agrees_def in_int_range_def near_floor_def magnitude_below_def)
  from a have "finite_value d" by (simp add: near_floor_finite)
  then obtain q where "d = Finite q" by (cases d) (simp_all add: finite_value_def)
  then show "plain_integer (print_number valueint d)"
    unfolding e by (simp add: plain_integer_sprintf_0f)
next
  assume a: "d \<noteq> Finite 0 \<and> \<not> (cache_agrees valueint d \<and> in_int_range d) \<and>
    \<not> (near_floor d \<and> magnitude_below d (10 ^ 60)) \<and>
    (magnitude_below d (1 / 10 ^ 6) \<or> magnitude_above d (10 ^ 9))"
  then show e: "print_number valueint d = sprintf_e d"
    by (intro print_number_e)
      (simp_all add: cache_agrees_def in_int_range_def near_floor_def magnitude_below_def magnitude_above_def)
  assume "finite_value d"
  then obtain q where "d = Finite q" by (cases d) (simp_all add: finite_value_def)
  then show "exponential (print_number valueint d)"
    unfolding e by (simp add: exponential_sprintf_e)
next
  assume a: "d \<noteq> Finite 0 \<and> \<not> (cache_agrees valueint d \<and> in_int_range d) \<and>
    \<not> (near_floor d \<and> magnitude_below d (10 ^ 60)) \<and>
    \<not> (magnitude_below d (1 / 10 ^ 6) \<or> magnitude_above d (10 ^ 9))"
  then show e: "print_number valueint d = sprintf_f d"
    by (intro print_number_f)
      (simp_all add: cache_agrees_def in_int_range_def near_floor_def magnitude_below_def magnitude_above_def)
  assume "finite_value d"
  then obtain q where "d = Finite q" by (cases d) (simp_all add: finite_value_def)
  then show "fixed_point (print_number valueint d)"
    unfolding e by (simp add: fixed_point_sprintf_f)
next
  assume "whole_valued d"
  then obtain q where "d = Finite q" "q = of_int \<lfloor>q\<rfloor>"
    by (cases d) (simp_all add: whole_valued_def)
  then show "near_floor d" using near_floor_whole by simp
next
  assume "d = PInf \<or> d = NInf"
  then show "print_number valueint d = sprintf_e d" by (rule print_number_infinite)
next
  assume "d = NaN"
  then show "print_number valueint d = sprintf_f d" by (simp add: print_number_NaN)
qed

lemma round_double_neg_numeral:
  "(numeral w :: int) < 2 ^ 53 \<Longrightarrow> round_double (- numeral w) = Finite (- numeral w)"
  using round_double_int[of "- numeral w"] by simp

lemma int_range_literals:
  "double_of_int INT_MAX = Finite 2147483647" "double_of_int INT_MIN = Finite (- 2147483648)"
  by (simp_all add: double_of_int_def INT_MAX_def INT_MIN_def round_double_numeral round_double_neg_numeral)

lemma sprintf_e_sample: "sprintf_e (Finite (1 / 2 ^ 30)) = ''9.313226e-10''"
  by code_simp

lemma sample_five:
  "cache_agrees 5 (Finite 5)" "in_int_range (Finite 5)" "sprintf_d 5 = ''5''"
proof -
  have 5: "double_of_int 5 = Finite 5" by (simp add: double_of_int_def round_double_numeral)
  show "cache_agrees 5 (Finite 5)"
    by (simp add: cache_agrees_def 5 dsub_def dneg_def round_double_0 dfabs_def DBL_EPSILON_def pow2_def)
  show "in_int_range (Finite 5)" by (simp add: in_int_range_def int_range_literals)
  show "sprintf_d 5 = ''5''" by (simp add: sprintf_d_def decimal.simps digit_char_simps)
qed

lemma sample_large:
  "\<not> in_int_range (Finite (10 ^ 15))" "(10 ^ 15 :: rat) = of_int \<lfloor>10 ^ 15 :: rat\<rfloor>"
  "magnitude_below (Finite (10 ^ 15)) (10 ^ 60)" "sprintf_0f (Finite (10 ^ 15)) = ''1000000000000000''"
proof -
  show "\<not> in_int_range (Finite (10 ^ 15))" by (simp add: in_int_range_def int_range_literals)
  show "(10 ^ 15 :: rat) = of_int \<lfloor>10 ^ 15 :: rat\<rfloor>" by simp
  show "magnitude_below (Finite (10 ^ 15)) (10 ^ 60)"
    unfolding magnitude_below_def literal_1e60 by (simp add: dfabs_def)
  have "sprintf_0f (Finite (of_int (10 ^ 15))) = sprintf_d (10 ^ 15)" by (rule sprintf_0f_int)
  then show "sprintf_0f (Finite (10 ^ 15)) = ''1000000000000000''"
    by (simp add: sprintf_d_def decimal.simps digit_char_simps)
qed

lemma sample_small:
  "\<not> cache_agrees 0 (Finite (1 / 2 ^ 30))" "\<not> near_floor (Finite (1 / 2 ^ 30))"
  "magnitude_below (Finite (1 / 2 ^ 30)) (1 / 10 ^ 6)"
proof -
  have r: "round_double (- (1 / 2 ^ 30)) = Finite (- (1 / 2 ^ 30))"
    using round_double_dyadic[of "- 1" 30] by simp
  have fl: "\<lfloor>1 / 2 ^ 30 :: rat\<rfloor> = 0" by (simp add: floor_eq_iff)
  have d: "dsub (Finite 0) (Finite (1 / 2 ^ 30)) = Finite (- (1 / 2 ^ 30))"
    using r by (simp add: dsub_def dneg_def)
  show "\<not> cache_agrees 0 (Finite (1 / 2 ^ 30))"
    unfolding cache_agrees_def double_of_int_def of_int_0 round_double_0 d
    by (simp add: dfabs_def DBL_EPSILON_def pow2_def)
  show "\<not> near_floor (Finite (1 / 2 ^ 30))"
    unfolding near_floor_def dfloor_def double.case fl of_int_0 d
    by (simp add: dfabs_def DBL_EPSILON_def pow2_def)
  show "magnitude_below (Finite (1 / 2 ^ 30)) (1 / 10 ^ 6)"
    unfolding magnitude_below_def literal_1em6 by (simp add: dfabs_def)
qed

lemma sample_fraction:
  "\<not> cache_agrees 0 (Finite (1 / 1024))" "\<not> near_floor (Finite (1 / 1024))"
  "\<not> magnitude_below (Finite (1 / 1024)) (1 / 10 ^ 6)" "\<not> magnitude_above (Finite (1 / 1024)) (10 ^ 9)"
proof -
  have r: "round_double (- (1 / 1024)) = Finite (- (1 / 1024))"
    using round_double_dyadic[of "- 1" 10] by simp
  have fl: "\<lfloor>1 / 1024 :: rat\<rfloor> = 0" by (simp add: floor_eq_iff)
  have d: "dsub (Finite 0) (Finite (1 / 1024)) = Finite (- (1 / 1024))"
    using r by (simp add: dsub_def dneg_def)
  show "\<not> cache_agrees 0 (Finite (1 / 1024))"
    unfolding cache_agrees_def double_of_int_def of_int_0 round_double_0 d
    by (simp add: dfabs_def DBL_EPSILON_def pow2_def)
  show "\<not> near_floor (Finite (1 / 1024))"
    unfolding near_floor_def dfloor_def double.case fl of_int_0 d
    by (simp add: dfabs_def DBL_EPSILON_def pow2_def)
  show "\<not> magnitude_below (Finite (1 / 1024)) (1 / 10 ^ 6)"
    unfolding magnitude_below_def literal_1em6 by (simp add: dfabs_def)
  show "\<not> magnitude_above (Finite (1 / 1024)) (10 ^ 9)"
    unfolding magnitude_above_def literal_1e9 by (simp add: dfabs_def)
qed

text \<open>
  The branches at \<open>0\<close>, \<open>5\<close>, \<open>10\<^sup>1\<^sup>5\<close>, \<open>2\<^sup>-\<^sup>3\<^sup>0\<close>, \<open>1/1024\<close>, an infinity and a NaN.
\<close>

theorem print_number_policy_witness:
  "print_number 0 (Finite 0) = ''0'' \<and>
   cache_agrees 5 (Finite 5) \<and> in_int_range (Finite 5) \<and> print_number 5 (Finite 5) = ''5'' \<and>
   \<not> in_int_range (Finite (10 ^ 15)) \<and> whole_valued (Finite (10 ^ 15)) \<and>
   near_floor (Finite (10 ^ 15)) \<and> magnitude_below (Finite (10 ^ 15)) (10 ^ 60) \<and>
   print_number INT_MIN (Finite (10 ^ 15)) = ''1000000000000000'' \<and>
   \<not> cache_agrees 0 (Finite (1 / 2 ^ 30)) \<and> \<not> near_floor (Finite (1 / 2 ^ 30)) \<and>
   magnitude_below (Finite (1 / 2 ^ 30)) (1 / 10 ^ 6) \<and> finite_value (Finite (1 / 2 ^ 30)) \<and>
   print_number 0 (Finite (1 / 2 ^ 30)) = ''9.313226e-10'' \<and> exponential ''9.313226e-10'' \<and>
   \<not> cache_agrees 0 (Finite (1 / 1024)) \<and> \<not> near_floor (Finite (1 / 1024)) \<and>
   \<not> magnitude_below (Finite (1 / 1024)) (1 / 10 ^ 6) \<and> \<not> magnitude_above (Finite (1 / 1024)) (10 ^ 9) \<and>
   finite_value (Finite (1 / 1024)) \<and>
   print_number 0 (Finite (1 / 1024)) = ''0.000977'' \<and> fixed_point ''0.000977'' \<and>
   print_number INT_MIN PInf = ''inf'' \<and> print_number INT_MIN NaN = sprintf_f NaN"
proof -
  note p0 = print_number_policy[of "Finite 0" 0]
  note p1 = print_number_policy[of "Finite 5" 5]
  note p2 = print_number_policy[of "Finite (10 ^ 15)" INT_MIN]
  note p3 = print_number_policy[of "Finite (1 / 2 ^ 30)" 0]
  note p4 = print_number_policy[of "Finite (1 / 1024)" 0]
  note p5 = print_number_policy[of PInf INT_MIN]
  note p6 = print_number_policy[of NaN INT_MIN]
  have 0: "print_number 0 (Finite 0) = ''0''" using p0 by simp
  have 1: "print_number 5 (Finite 5) = ''5''" using p1 sample_five by simp
  have w: "whole_valued (Finite (10 ^ 15))" using sample_large(2) by (simp add: whole_valued_def)
  have 2: "near_floor (Finite (10 ^ 15))" using p2 w by blast
  have 3: "print_number INT_MIN (Finite (10 ^ 15)) = ''1000000000000000''"
    using p2 sample_large 2 by simp
  have f: "finite_value (Finite (1 / 2 ^ 30))" "finite_value (Finite (1 / 1024))"
    by (simp_all add: finite_value_def)
  have nz: "Finite (1 / 2 ^ 30) \<noteq> Finite 0" "Finite (1 / 1024) \<noteq> Finite 0" by simp_all
  have 4: "print_number 0 (Finite (1 / 2 ^ 30)) = sprintf_e (Finite (1 / 2 ^ 30)) \<and>
      exponential (print_number 0 (Finite (1 / 2 ^ 30)))"
    using p3 sample_small f nz by blast
  then have 5: "print_number 0 (Finite (1 / 2 ^ 30)) = ''9.313226e-10''"
    by (simp only: sprintf_e_sample)
  have 6: "exponential ''9.313226e-10''" using 4 unfolding 5 by blast
  have 7: "print_number 0 (Finite (1 / 1024)) = sprintf_f (Finite (1 / 1024)) \<and>
      fixed_point (print_number 0 (Finite (1 / 1024)))"
    using p4 sample_fraction f nz by blast
  then have 8: "print_number 0 (Finite (1 / 1024)) = ''0.000977''" by (simp only: sprintf_f_sample)
  have 9: "fixed_point ''0.000977''" using 7 unfolding 8 by blast
  have "print_number INT_MIN PInf = sprintf_e PInf" using p5 by blast
  then have 10: "print_number INT_MIN PInf = ''inf''" by (simp add: sprintf_e_def)
  have 11: "print_number INT_MIN NaN = sprintf_f NaN" using p6 by blast
  show ?thesis
    using 0 1 w 2 3 5 6 8 9 10 11 f sample_five sample_large sample_small sample_fraction by blast
qed

lemma sample_edge:
  "round_double (- 1 + 1 / 2 ^ 53) = Finite (- 1 + 1 / 2 ^ 53)"
  "int_of_double (Finite (- 1 + 1 / 2 ^ 53)) = 0"
  "(- 1 + 1 / 2 ^ 53 :: rat) \<noteq> of_int \<lfloor>- 1 + 1 / 2 ^ 53 :: rat\<rfloor>"
  "\<not> cache_agrees 0 (Finite (- 1 + 1 / 2 ^ 53))"
  "near_floor (Finite (- 1 + 1 / 2 ^ 53))"
  "magnitude_below (Finite (- 1 + 1 / 2 ^ 53)) (10 ^ 60)"
  "\<not> magnitude_below (Finite (- 1 + 1 / 2 ^ 53)) (1 / 10 ^ 6)"
  "\<not> magnitude_above (Finite (- 1 + 1 / 2 ^ 53)) (10 ^ 9)"
  "sprintf_0f (Finite (- 1 + 1 / 2 ^ 53)) = ''-1''"
proof -
  have v: "(- 1 + 1 / 2 ^ 53 :: rat) = of_int (- 9007199254740991) / 2 ^ 53" by simp
  show "round_double (- 1 + 1 / 2 ^ 53) = Finite (- 1 + 1 / 2 ^ 53)"
    unfolding v by (rule round_double_dyadic) simp_all
  have fl: "\<lfloor>- 1 + 1 / 2 ^ 53 :: rat\<rfloor> = - 1" by (simp add: floor_eq_iff)
  have cl: "\<lceil>- 1 + 1 / 2 ^ 53 :: rat\<rceil> = 0" by (simp add: ceiling_eq_iff)
  show "int_of_double (Finite (- 1 + 1 / 2 ^ 53)) = 0"
    using cl by (simp add: int_of_double_def INT_MIN_def INT_MAX_def)
  show "(- 1 + 1 / 2 ^ 53 :: rat) \<noteq> of_int \<lfloor>- 1 + 1 / 2 ^ 53 :: rat\<rfloor>"
    unfolding fl by simp
  have r1: "round_double (1 - 1 / 2 ^ 53) = Finite (1 - 1 / 2 ^ 53)"
    using round_double_dyadic[of 9007199254740991 53] by simp
  have r2: "round_double (- (1 / 2 ^ 53)) = Finite (- (1 / 2 ^ 53))"
    using round_double_dyadic[of "- 1" 53] by simp
  have d1: "dsub (Finite 0) (Finite (- 1 + 1 / 2 ^ 53)) = Finite (1 - 1 / 2 ^ 53)"
    using r1 by (simp add: dsub_def dneg_def)
  have d2: "dsub (Finite (- 1)) (Finite (- 1 + 1 / 2 ^ 53)) = Finite (- (1 / 2 ^ 53))"
    using r2 by (simp add: dsub_def dneg_def)
  show "\<not> cache_agrees 0 (Finite (- 1 + 1 / 2 ^ 53))"
    unfolding cache_agrees_def double_of_int_def of_int_0 round_double_0 d1
    by (simp add: dfabs_def DBL_EPSILON_def pow2_def)
  show "near_floor (Finite (- 1 + 1 / 2 ^ 53))"
    unfolding near_floor_def dfloor_def double.case fl of_int_minus of_int_1 d2
    by (simp add: dfabs_def DBL_EPSILON_def pow2_def)
  show "magnitude_below (Finite (- 1 + 1 / 2 ^ 53)) (10 ^ 60)"
    unfolding magnitude_below_def literal_1e60 by (simp add: dfabs_def)
  show "\<not> magnitude_below (Finite (- 1 + 1 / 2 ^ 53)) (1 / 10 ^ 6)"
    unfolding magnitude_below_def literal_1em6 by (simp add: dfabs_def)
  show "\<not> magnitude_above (Finite (- 1 + 1 / 2 ^ 53)) (10 ^ 9)"
    unfolding magnitude_above_def literal_1e9 by (simp add: dfabs_def)
  have a: "\<bar>- 1 + 1 / 2 ^ 53 :: rat\<bar> = 9007199254740991 / 9007199254740992" by simp
  have "\<lfloor>9007199254740991 / 9007199254740992 :: rat\<rfloor> = 0" by (simp add: floor_eq_iff)
  then have "round_even (9007199254740991 / 9007199254740992) = 1" by (simp add: round_even_def)
  then show "sprintf_0f (Finite (- 1 + 1 / 2 ^ 53)) = ''-1''"
    unfolding sprintf_0f_def double.case a
    by (simp add: sign_prefix_def decimal.simps digit_char_simps)
qed

text \<open>
  C3 as stated fails for a double that is not whole-valued but within
  \<^verbatim>\<open>DBL_EPSILON\<close> above its floor, and for a double that is not finite. The double
  \<open>-1 + 2\<^sup>-\<^sup>5\<^sup>3\<close>, with \<open>valueint\<close> its truncation \<open>0\<close>, is not whole-valued, its
  magnitude is neither below \<open>1e-6\<close> nor above \<open>1e9\<close>, and it prints as \<open>-1\<close>, which
  is not fixed-point notation. The infinity is above \<open>1e9\<close> and prints as \<open>inf\<close>,
  which is not exponential notation. A NaN is none of the cases before the last and
  what \<^verbatim>\<open>%f\<close> prints for it is not fixed-point notation.
\<close>

theorem print_number_counterexample:
  "round_double (- 1 + 1 / 2 ^ 53) = Finite (- 1 + 1 / 2 ^ 53) \<and>
   int_of_double (Finite (- 1 + 1 / 2 ^ 53)) = 0 \<and>
   \<not> whole_valued (Finite (- 1 + 1 / 2 ^ 53)) \<and>
   \<not> cache_agrees 0 (Finite (- 1 + 1 / 2 ^ 53)) \<and>
   \<not> magnitude_below (Finite (- 1 + 1 / 2 ^ 53)) (1 / 10 ^ 6) \<and>
   \<not> magnitude_above (Finite (- 1 + 1 / 2 ^ 53)) (10 ^ 9) \<and>
   print_number 0 (Finite (- 1 + 1 / 2 ^ 53)) = ''-1'' \<and>
   \<not> fixed_point ''-1'' \<and>
   magnitude_above PInf (10 ^ 9) \<and>
   print_number (int_of_double PInf) PInf = ''inf'' \<and>
   \<not> exponential ''inf'' \<and>
   \<not> whole_valued NaN \<and> \<not> magnitude_below NaN (1 / 10 ^ 6) \<and> \<not> magnitude_above NaN (10 ^ 9) \<and>
   print_number (int_of_double NaN) NaN = sprintf_f NaN \<and>
   \<not> fixed_point (sprintf_f NaN)"
proof -
  have "print_number 0 (Finite (- 1 + 1 / 2 ^ 53)) = sprintf_0f (Finite (- 1 + 1 / 2 ^ 53))"
    using sample_edge(4,5,6)
    by (intro print_number_0f)
      (simp_all add: cache_agrees_def near_floor_def magnitude_below_def)
  moreover have "\<not> fixed_point ''-1''"
    by (simp add: fixed_point_def without_sign_def Let_def)
  moreover have "\<not> whole_valued (Finite (- 1 + 1 / 2 ^ 53))"
    using sample_edge(3) by (simp add: whole_valued_def)
  moreover have "print_number (int_of_double PInf) PInf = ''inf''"
    by (simp add: print_number_infinite sprintf_e_def)
  moreover have "\<not> exponential ''inf''"
    by (simp add: exponential_def Let_def)
  moreover have "print_number (int_of_double NaN) NaN = sprintf_f NaN"
    by (simp add: print_number_NaN)
  moreover have "\<not> fixed_point (sprintf_f NaN)"
    by (simp add: sprintf_f_def fixed_point_def without_sign_def Let_def)
  moreover have "\<not> whole_valued NaN" by (simp add: whole_valued_def)
  ultimately show ?thesis using sample_edge magnitude_infinite by simp
qed

section \<open>Properties of the parser\<close>

lemma skip_whitespace: "whitespace_only ws \<Longrightarrow> skip ws = []"
  by (simp add: skip_def whitespace_only_def list_all_iff)

lemma parse_value_end: "parse_value [] = Inl (Syntax [])"
  by (simp add: parse_value.simps NUL_def QUOTE_def is_digit_def)

lemma parse_empty_object: "parse_value (''{}'' @ rest) = Inr (cJSON_Object [], rest)"
  by (simp add: parse_value.simps parse_object.simps QUOTE_def is_digit_def skip_def)

lemma parse_empty_array: "parse_value (''[]'' @ rest) = Inr (cJSON_Array [], rest)"
  by (simp add: parse_value.simps parse_array.simps QUOTE_def is_digit_def skip_def)

text \<open>
  C5. Parsing \<open>{}\<close> yields an object with no children and parsing \<open>[]\<close> an array
  with no children, whether or not the end of the text is required; parsing the empty
  text or a text of white space only fails, with the error pointer at the terminator
  (the start of the empty text, past the start otherwise); \<open>{} garbage\<close> is
  rejected when the end of the text is required, with the error pointer at
  \<open>garbage\<close>, and accepted otherwise, with the parse end right after the closing brace.
\<close>

theorem parse_boundary:
  assumes "whitespace_only ws"
  shows "cJSON_ParseWithOpts ''{}'' r = Inr (cJSON_Object [], []) \<and>
         cJSON_ParseWithOpts ''[]'' r = Inr (cJSON_Array [], []) \<and>
         cJSON_ParseWithOpts [] r = Inl (Syntax []) \<and>
         cJSON_ParseWithOpts ws r = Inl (Syntax []) \<and>
         cJSON_ParseWithOpts ''{} garbage'' True = Inl (Syntax ''garbage'') \<and>
         cJSON_ParseWithOpts ''{} garbage'' False = Inr (cJSON_Object [], '' garbage'')"
proof -
  have 1: "cJSON_ParseWithOpts ''{}'' r = Inr (cJSON_Object [], [])"
    using parse_empty_object[of "[]"] by (simp add: cJSON_ParseWithOpts_def skip_def)
  have 2: "cJSON_ParseWithOpts ''[]'' r = Inr (cJSON_Array [], [])"
    using parse_empty_array[of "[]"] by (simp add: cJSON_ParseWithOpts_def skip_def)
  have 3: "cJSON_ParseWithOpts [] r = Inl (Syntax [])"
    by (simp add: cJSON_ParseWithOpts_def skip_def parse_value_end)
  have 4: "cJSON_ParseWithOpts ws r = Inl (Syntax [])"
    using skip_whitespace[OF assms] by (simp add: cJSON_ParseWithOpts_def parse_value_end)
  have 5: "cJSON_ParseWithOpts ''{} garbage'' True = Inl (Syntax ''garbage'')"
    using parse_empty_object[of "'' garbage''"]
    by (simp add: cJSON_ParseWithOpts_def skip_def NUL_def)
  have 6: "cJSON_ParseWithOpts ''{} garbage'' False = Inr (cJSON_Object [], '' garbage'')"
    using parse_empty_object[of "'' garbage''"]
    by (simp add: cJSON_ParseWithOpts_def skip_def NUL_def)
  show ?thesis using 1 2 3 4 5 6 by simp
qed

theorem parse_boundary_witness:
  "whitespace_only [CHR '' '', TAB, NL, CHR 0x0D] \<and>
   cJSON_ParseWithOpts [CHR '' '', TAB, NL, CHR 0x0D] True = Inl (Syntax []) \<and>
   cJSON_ParseWithOpts [CHR '' '', TAB, NL, CHR 0x0D] False = Inl (Syntax []) \<and>
   cJSON_ParseWithOpts ''{}'' True = Inr (cJSON_Object [], [])"
  using parse_boundary [of "[CHR '' '', TAB, NL, CHR 0x0D]" True]
    parse_boundary [of "[CHR '' '', TAB, NL, CHR 0x0D]" False]
  by (simp add: whitespace_only_def TAB_def NL_def NUL_def)

section \<open>Properties of the serializer\<close>

lemma compose_array_separated: "compose_array es True = separated_by '', '' es"
  by (induction es True rule: compose_array.induct) (simp_all add: separated_by_def)

lemma compose_object_lines:
  "compose_object es depth True
   = member_lines (map (\<lambda>(name, entry). tabs depth @ name @ '':'' @ [TAB] @ entry) es)"
proof (induction es)
  case Nil
  then show ?case by (simp add: member_lines_def)
next
  case (Cons e es)
  obtain name entry where e: "e = (name, entry)" by (cases e)
  show ?case using Cons by (cases "es = []") (simp_all add: e member_lines_def tabs_def)
qed

text \<open>
  C7 (as amended). With \<open>fmt\<close> set the serializer produces the layout \<open>pretty\<close>:
  objects have one member per line, indented with one tab per nesting level, with a
  colon and a tab between key and value and no comma after the last member; arrays
  are on one line, their elements separated by a comma and a space, with no comma
  after the last element.
\<close>

theorem pretty_layout: "print_value item depth True = pretty item depth"
proof (induction item arbitrary: depth)
  case (cJSON_Array items)
  have eq: "map (\<lambda>child. print_value child (depth + 1) True) items
      = map (\<lambda>item. pretty item (depth + 1)) items"
    using cJSON_Array by (intro map_cong) auto
  show ?case by (simp add: compose_array_separated eq separated_by_def)
next
  case (cJSON_Object members)
  have eq: "map (\<lambda>(name, entry). tabs (depth + 1) @ name @ '':'' @ [TAB] @ entry)
          (map (\<lambda>(string, child). (print_string_ptr string, print_value child (depth + 1) True)) members)
      = map (\<lambda>(key, item).
                    tabs (depth + 1) @ print_string_ptr key @ '':'' @ [TAB] @ pretty item (depth + 1))
               members"
    using cJSON_Object by (auto intro!: map_cong simp: snds.simps)
  show ?case
  proof (cases "members = []")
    case True
    then show ?thesis by (simp add: tabs_def)
  next
    case False
    have "print_value (cJSON_Object members) depth True
        = ''{'' @ [NL]
          @ compose_object
              (map (\<lambda>(string, child). (print_string_ptr string, print_value child (depth + 1) True)) members)
              (depth + 1) True
          @ tabs depth @ ''}''"
      using False by (simp add: Let_def tabs_def)
    also have "\<dots> = pretty (cJSON_Object members) depth"
      unfolding compose_object_lines eq using False by simp
    finally show ?thesis .
  qed
qed simp_all

theorem pretty_layout_witness:
  "print_value (cJSON_Object [(''k'', cJSON_Array [cJSON_True, cJSON_NULL]), (''e'', cJSON_Object [])]) 0 True
   = ''{'' @ [NL, TAB, QUOTE] @ ''k'' @ [QUOTE] @ '':'' @ [TAB] @ ''[true, null],'' @ [NL, TAB, QUOTE]
     @ ''e'' @ [QUOTE] @ '':'' @ [TAB] @ ''{'' @ [NL] @ ''}'' @ [NL] @ ''}''"
  using pretty_layout
    [of "cJSON_Object [(''k'', cJSON_Array [cJSON_True, cJSON_NULL]), (''e'', cJSON_Object [])]" 0]
  by (simp add: separated_by_def member_lines_def tabs_def print_string_ptr_def c_str_def
      is_special_def NUL_def QUOTE_def BSLASH_def)

text \<open>
  C7 as stated fails: with \<open>fmt\<close> set the two elements of an array are printed on
  one line, and the key of a member is followed by a colon and a tab, not by a colon
  and a space.
\<close>

theorem pretty_layout_counterexample:
  "cJSON_Print (cJSON_Array [cJSON_True, cJSON_False]) = ''[true, false]'' \<and>
   cJSON_Print (cJSON_Object [(''a'', cJSON_NULL)])
   = ''{'' @ [NL, TAB, QUOTE] @ ''a'' @ [QUOTE] @ '':'' @ [TAB] @ ''null'' @ [NL] @ ''}''"
  by (simp add: cJSON_Print_def print_string_ptr_def c_str_def is_special_def
      NUL_def QUOTE_def BSLASH_def)

section \<open>Parsing what the serializer printed\<close>

lemma skip_start: "32 < (of_char c :: nat) \<Longrightarrow> skip (c # cs) = c # cs"
  by (simp add: skip_def)

lemma skip_blank: "whitespace_only ws \<Longrightarrow> skip (ws @ rest) = skip rest"
  by (induction ws) (simp_all add: skip_def whitespace_only_def)

lemma skip_le: "length (skip v) \<le> length v"
  by (simp add: skip_def length_dropWhile_le)

lemma value_start_code: "value_start c \<Longrightarrow> 32 < (of_char c :: nat)"
  by (auto simp: value_start_def QUOTE_def)

lemma sprintf_d_start: "\<exists>c cs. sprintf_d k = c # cs \<and> value_start c"
proof -
  have d: "\<exists>c cs. decimal n = c # cs \<and> value_start c" if "0 \<le> n" for n
  proof -
    obtain c cs where c: "decimal n = c # cs" using decimal_not_Nil[of n] by (cases "decimal n") auto
    then have "is_digit c" using decimal_digits[OF that, of c] by simp
    then have "(of_char c :: nat) \<in> {48, 49, 50, 51, 52, 53, 54, 55, 56, 57}"
      unfolding is_digit_def by (simp only: insert_iff empty_iff) arith
    then have "(of_char c :: nat) \<in> of_char ` set ''0123456789''" by simp
    then have "c \<in> set ''0123456789''" unfolding inj_image_mem_iff[OF inj_of_char] .
    then show ?thesis using c by (auto simp: value_start_def)
  qed
  show ?thesis
  proof (cases "k < 0")
    case True
    then show ?thesis by (simp add: sprintf_d_def value_start_def)
  next
    case False
    then show ?thesis using d[of k] by (simp add: sprintf_d_def)
  qed
qed

lemma print_value_start:
  assumes "lossless t"
  shows "\<exists>c cs. print_value t depth fmt = c # cs \<and> value_start c"
proof (cases t)
  case (cJSON_Number vi d)
  then obtain k where k: "\<bar>k\<bar> < 2 ^ 53" "d = Finite (of_int k)" "vi = int_of_double (Finite (of_int k))"
    using assms by (auto elim: whole_numberE)
  show ?thesis using sprintf_d_start[of k] by (simp add: cJSON_Number k print_number_whole[OF k(1)])
next
  case (cJSON_String s)
  then show ?thesis by (simp add: print_string_ptr_def value_start_def)
qed (simp_all add: value_start_def Let_def)

lemma value_start_facts:
  assumes "value_start c"
  shows "skip (c # cs) = c # cs" "c \<noteq> CHR '']''" "c \<noteq> CHR ''}''" "c \<noteq> CHR '',''" "c \<noteq> NUL"
  using assms value_start_code[OF assms]
  by (auto simp: skip_start value_start_def QUOTE_def NUL_def)

lemma value_end_facts:
  assumes "value_end rest"
  shows "\<not> is_digit (deref rest)" "deref rest \<noteq> CHR ''.''" "deref rest \<noteq> CHR ''e''" "deref rest \<noteq> CHR ''E''"
  using assms by (auto simp: value_end_def is_digit_def NUL_def NL_def)

lemma parse_value_leaf:
  "parse_value (''null'' @ rest) = Inr (cJSON_NULL, rest)"
  "parse_value (''false'' @ rest) = Inr (cJSON_False, rest)"
  "parse_value (''true'' @ rest) = Inr (cJSON_True, rest)"
  by (simp_all add: parse_value.simps)

lemma parse_value_string:
  assumes "NUL \<notin> set s"
  shows "parse_value (print_string_ptr s @ rest) = Inr (cJSON_String s, rest)"
proof -
  have q: "parse_value (QUOTE # X)
      = (case parse_string (QUOTE # X) of Inl e \<Rightarrow> Inl e
         | Inr (s, end) \<Rightarrow> Inr (cJSON_String s, end))" for X
    by (subst parse_value.simps) (simp add: QUOTE_def)
  have "print_string_ptr s @ rest = QUOTE # (escape_loop s @ QUOTE # rest)"
    by (simp add: print_string_ptr_escape_loop[OF assms])
  then have "parse_value (print_string_ptr s @ rest)
      = (case parse_string (print_string_ptr s @ rest) of Inl e \<Rightarrow> Inl e
         | Inr (s, end) \<Rightarrow> Inr (cJSON_String s, end))"
    using q by simp
  then show ?thesis by (simp add: parse_string_print_string_ptr[OF assms])
qed

lemma parse_value_number:
  assumes "whole_number vi d" and "value_end rest"
  shows "parse_value (print_number vi d @ rest) = Inr (cJSON_Number vi d, rest)"
proof -
  from assms(1) obtain k where k: "\<bar>k\<bar> < 2 ^ 53" "d = Finite (of_int k)"
    "vi = int_of_double (Finite (of_int k))"
    by (rule whole_numberE)
  have p: "print_number vi d = sprintf_d k" by (simp add: k print_number_whole[OF k(1)])
  obtain c cs where c: "sprintf_d k = c # cs" "c = CHR ''-'' \<or> is_digit c" "c \<noteq> QUOTE"
    "c \<noteq> CHR ''n''" "c \<noteq> CHR ''f''" "c \<noteq> CHR ''t''"
  proof (cases "k < 0")
    case True
    then show ?thesis using that[of "CHR ''-''"] by (simp add: sprintf_d_def QUOTE_def)
  next
    case False
    obtain c cs where d: "decimal k = c # cs" using decimal_not_Nil[of k] by (cases "decimal k") auto
    then have dg: "is_digit c" using decimal_digits[of k c] False by simp
    then have "c \<noteq> QUOTE" "c \<noteq> CHR ''n''" "c \<noteq> CHR ''f''" "c \<noteq> CHR ''t''"
      by (auto simp: QUOTE_def is_digit_def)
    then show ?thesis using that[of c cs] d False dg by (simp add: sprintf_d_def)
  qed
  have "parse_value (sprintf_d k @ rest)
      = (case parse_number (sprintf_d k @ rest) of ((i, d), end) \<Rightarrow> Inr (cJSON_Number i d, end))"
    unfolding c(1) using c(2-) by (subst parse_value.simps) auto
  then show ?thesis
    using parse_number_sprintf_d[OF k(1) value_end_facts[OF assms(2)]] unfolding p by (simp add: k)
qed

lemma value_end_sep: "value_end (CHR '','' # X)" "value_end (CHR '']'' # X)" "value_end (CHR ''}'' # X)"
  "value_end (NL # X)"
  by (simp_all add: value_end_def)

lemma skip_sep: "skip (CHR '','' # X) = CHR '','' # X" "skip (CHR '']'' # X) = CHR '']'' # X"
  "skip (CHR ''}'' # X) = CHR ''}'' # X" "skip (CHR '':'' # X) = CHR '':'' # X"
  by (simp_all add: skip_def)

lemma parse_array_loop_step:
  assumes "parse_value (E @ T) = Inr (c, T)" and "E = x # xs" and "value_start x" and "skip T = T"
  shows "parse_array_loop acc (CHR '','' # (if fmt then '' '' else []) @ E @ T)
         = parse_array_loop (acc @ [c]) T"
proof -
  have "skip ((if fmt then '' '' else []) @ E @ T) = E @ T"
    using value_start_facts(1)[OF assms(3)] assms(2) by (simp add: skip_def NUL_def)
  then show ?thesis
    using assms(1,4)
    by (subst parse_array_loop.simps) simp
qed

lemma parse_array_loop_end: "parse_array_loop acc (CHR '']'' # rest) = Inr (acc, CHR '']'' # rest)"
  by (subst parse_array_loop.simps) simp

lemma parse_array_loop_compose:
  assumes "\<And>c rest. c \<in> set cs \<Longrightarrow> value_end rest \<Longrightarrow> parse_value (P c @ rest) = Inr (c, rest)"
    and "\<And>c. c \<in> set cs \<Longrightarrow> \<exists>x xs. P c = x # xs \<and> value_start x"
    and "cs \<noteq> []"
  shows "parse_array_loop acc
           (CHR '','' # (if fmt then '' '' else []) @ compose_array (map P cs) fmt @ CHR '']'' # rest)
         = Inr (acc @ cs, CHR '']'' # rest)"
  using assms
proof (induction cs arbitrary: acc)
  case Nil
  then show ?case by simp
next
  case (Cons c cs)
  obtain x xs where x: "P c = x # xs" "value_start x" using Cons.prems(2)[of c] by auto
  show ?case
  proof (cases "cs = []")
    case True
    have "parse_array_loop acc (CHR '','' # (if fmt then '' '' else []) @ P c @ CHR '']'' # rest)
        = parse_array_loop (acc @ [c]) (CHR '']'' # rest)"
      using Cons.prems(1)[of c "CHR '']'' # rest"] x
      by (intro parse_array_loop_step) (simp_all add: value_end_sep skip_sep)
    then show ?thesis using True by (simp add: parse_array_loop_end)
  next
    case False
    define T where "T = CHR '','' # (if fmt then '' '' else []) @ compose_array (map P cs) fmt @ CHR '']'' # rest"
    have e: "compose_array (map P (c # cs)) fmt @ CHR '']'' # rest = P c @ T"
      using False by (cases cs) (simp_all add: T_def)
    have "parse_array_loop acc (CHR '','' # (if fmt then '' '' else []) @ P c @ T)
        = parse_array_loop (acc @ [c]) T"
      using Cons.prems(1)[of c T] x
      by (intro parse_array_loop_step) (simp_all add: value_end_sep skip_sep T_def)
    also have "\<dots> = Inr ((acc @ [c]) @ cs, CHR '']'' # rest)"
      unfolding T_def using Cons.prems False by (intro Cons.IH) simp_all
    also have "\<dots> = Inr (acc @ c # cs, CHR '']'' # rest)" by simp
    finally show ?thesis unfolding e .
  qed
qed

lemma parse_array_compose:
  assumes "\<And>c rest. c \<in> set cs \<Longrightarrow> value_end rest \<Longrightarrow> parse_value (P c @ rest) = Inr (c, rest)"
    and "\<And>c. c \<in> set cs \<Longrightarrow> \<exists>x xs. P c = x # xs \<and> value_start x"
    and "cs \<noteq> []"
  shows "parse_array (CHR ''['' # compose_array (map P cs) fmt @ CHR '']'' # rest)
         = Inr (cJSON_Array cs, rest)"
proof -
  obtain c cs' where cs: "cs = c # cs'" using assms(3) by (cases cs) auto
  obtain x xs where x: "P c = x # xs" "value_start x" using assms(2)[of c] cs by auto
  define T where "T = (if cs' = [] then CHR '']'' # rest else
      CHR '','' # (if fmt then '' '' else []) @ compose_array (map P cs') fmt @ CHR '']'' # rest)"
  have e: "compose_array (map P cs) fmt @ CHR '']'' # rest = P c @ T"
    unfolding cs by (cases cs') (simp_all add: T_def)
  have T: "value_end T" "skip T = T" by (simp_all add: T_def value_end_sep skip_sep)
  have pv: "parse_value (P c @ T) = Inr (c, T)" using assms(1)[of c T] T cs by simp
  have loop: "parse_array_loop [c] T = Inr (cs, CHR '']'' # rest)"
  proof (cases "cs' = []")
    case True
    then show ?thesis by (simp add: T_def parse_array_loop_end cs)
  next
    case False
    have "parse_array_loop [c] T = Inr ([c] @ cs', CHR '']'' # rest)"
      using False assms(1,2) unfolding T_def cs
      by (simp only: if_False) (intro parse_array_loop_compose, simp_all)
    then show ?thesis by (simp add: cs)
  qed
  have sk: "skip (P c @ T) = P c @ T" using value_start_facts(1)[OF x(2)] x(1) by simp
  show ?thesis
    unfolding e
    apply (subst parse_array.simps)
    apply (simp add: sk Let_def pv T loop)
    apply (simp add: x value_start_facts[OF x(2)])
    done
qed

lemma whitespace_only_simps:
  "whitespace_only []" "whitespace_only (replicate n TAB)" "whitespace_only [NL]" "whitespace_only [TAB]"
  "whitespace_only (a @ b) = (whitespace_only a \<and> whitespace_only b)"
  "whitespace_only (if fmt then a else b) = (if fmt then whitespace_only a else whitespace_only b)"
  by (auto simp: whitespace_only_def TAB_def NL_def NUL_def list_all_iff)

lemma parse_member_text:
  assumes "NUL \<notin> set k" and "whitespace_only ws1" and "whitespace_only ws2"
    and "parse_value (E @ R) = Inr (c, R)" and "E = x # xs" and "value_start x"
  shows "parse_member (ws1 @ print_string_ptr k @ CHR '':'' # ws2 @ E @ R) = Inr ((k, c), skip R)"
proof -
  have q: "skip (print_string_ptr k @ X) = print_string_ptr k @ X" for X
    by (simp add: print_string_ptr_escape_loop[OF assms(1)] skip_def QUOTE_def)
  have 1: "skip (ws1 @ print_string_ptr k @ X) = print_string_ptr k @ X" for X
    by (simp add: skip_blank[OF assms(2)] q)
  have 2: "skip (ws2 @ E @ R) = E @ R"
    using value_start_facts(1)[OF assms(6)] by (simp add: skip_blank[OF assms(3)] assms(5))
  show ?thesis
    by (subst parse_member.simps)
      (simp add: 1 parse_string_print_string_ptr[OF assms(1)] skip_sep Let_def 2 assms(4))
qed

lemma parse_object_loop_step:
  assumes "NUL \<notin> set k" and "whitespace_only ws1" and "whitespace_only ws2"
    and "parse_value (E @ R) = Inr (c, R)" and "E = x # xs" and "value_start x"
  shows "parse_object_loop acc (CHR '','' # ws1 @ print_string_ptr k @ CHR '':'' # ws2 @ E @ R)
         = parse_object_loop (acc @ [(k, c)]) (skip R)"
  using skip_le[of R]
  by (subst parse_object_loop.simps) (simp add: parse_member_text[OF assms])

lemma parse_object_loop_end: "parse_object_loop acc (CHR ''}'' # rest) = Inr (acc, CHR ''}'' # rest)"
  by (subst parse_object_loop.simps) simp

lemma compose_object_Cons:
  "compose_object (map (\<lambda>(string, child). (print_string_ptr string, P child)) ((k, c) # es)) depth fmt @ X
   = ((if fmt then replicate (nat depth) TAB else []) @ print_string_ptr k @ CHR '':'' # (if fmt then [TAB] else [])
     @ P c @ (if es \<noteq> [] then '','' else []) @ (if fmt then [NL] else [])
     @ compose_object (map (\<lambda>(string, child). (print_string_ptr string, P child)) es) depth fmt @ X)"
  by simp

lemma parse_object_loop_compose:
  assumes "\<And>k c rest. (k, c) \<in> set ms \<Longrightarrow> value_end rest \<Longrightarrow> parse_value (P c @ rest) = Inr (c, rest)"
    and "\<And>k c. (k, c) \<in> set ms \<Longrightarrow> \<exists>x xs. P c = x # xs \<and> value_start x"
    and "\<And>k c. (k, c) \<in> set ms \<Longrightarrow> NUL \<notin> set k"
    and "ms \<noteq> []"
  shows "parse_object_loop acc
           (CHR '','' # (if fmt then [NL] else [])
            @ compose_object (map (\<lambda>(string, child). (print_string_ptr string, P child)) ms) depth fmt
            @ (if fmt then replicate n TAB else []) @ CHR ''}'' # rest)
         = Inr (acc @ ms, CHR ''}'' # rest)"
  using assms
proof (induction ms arbitrary: acc)
  case Nil
  then show ?case by simp
next
  case (Cons m es)
  obtain k c where m: "m = (k, c)" by (cases m)
  obtain x xs where x: "P c = x # xs" "value_start x" using Cons.prems(2)[of k c] m by auto
  have k: "NUL \<notin> set k" using Cons.prems(3)[of k c] m by simp
  have p1: "parse_value (P c' @ r) = Inr (c', r)" if "(k', c') \<in> set es" "value_end r" for k' c' r
    using Cons.prems(1)[of k' c' r] that by simp
  have p2: "\<exists>x xs. P c' = x # xs \<and> value_start x" if "(k', c') \<in> set es" for k' c'
    using Cons.prems(2)[of k' c'] that by simp
  have p3: "NUL \<notin> set k'" if "(k', c') \<in> set es" for k' c'
    using Cons.prems(3)[of k' c'] that by simp
  define R where "R = (if es \<noteq> [] then '','' else []) @ (if fmt then [NL] else [])
     @ compose_object (map (\<lambda>(string, child). (print_string_ptr string, P child)) es) depth fmt
     @ (if fmt then replicate n TAB else []) @ CHR ''}'' # rest"
  have ve: "value_end R"
    by (cases "es = []") (simp_all add: R_def value_end_sep)
  have pv: "parse_value (P c @ R) = Inr (c, R)" using Cons.prems(1)[of k c R] ve m by simp
  have step: "parse_object_loop acc
       (CHR '','' # ((if fmt then [NL] else []) @ (if fmt then replicate (nat depth) TAB else []))
         @ print_string_ptr k @ CHR '':'' # (if fmt then [TAB] else []) @ P c @ R)
     = parse_object_loop (acc @ [(k, c)]) (skip R)"
    using k pv x by (intro parse_object_loop_step) (simp_all add: whitespace_only_simps)
  have "parse_object_loop (acc @ [(k, c)]) (skip R) = Inr (acc @ (k, c) # es, CHR ''}'' # rest)"
  proof (cases "es = []")
    case True
    have "skip R = skip (CHR ''}'' # rest)"
      unfolding R_def using True
      by (simp add: skip_blank[of "[NL]"] skip_blank[of "replicate n TAB"] skip_blank[of "NL # replicate n TAB"]
          whitespace_only_simps flip: append_Cons)
    then show ?thesis using True by (simp add: skip_sep parse_object_loop_end)
  next
    case False
    then have "skip R = CHR '','' # (if fmt then [NL] else [])
       @ compose_object (map (\<lambda>(string, child). (print_string_ptr string, P child)) es) depth fmt
       @ (if fmt then replicate n TAB else []) @ CHR ''}'' # rest"
      by (simp add: R_def skip_sep)
    moreover have "parse_object_loop (acc @ [(k, c)]) \<dots> = Inr ((acc @ [(k, c)]) @ es, CHR ''}'' # rest)"
      by (rule Cons.IH[OF p1 p2 p3 False])
    ultimately show ?thesis by simp
  qed
  then show ?case using step unfolding m compose_object_Cons R_def by simp
qed

lemma parse_object_compose:
  assumes "\<And>k c rest. (k, c) \<in> set ms \<Longrightarrow> value_end rest \<Longrightarrow> parse_value (P c @ rest) = Inr (c, rest)"
    and "\<And>k c. (k, c) \<in> set ms \<Longrightarrow> \<exists>x xs. P c = x # xs \<and> value_start x"
    and "\<And>k c. (k, c) \<in> set ms \<Longrightarrow> NUL \<notin> set k"
    and "ms \<noteq> []"
  shows "parse_object
           (CHR ''{'' # (if fmt then [NL] else [])
            @ compose_object (map (\<lambda>(string, child). (print_string_ptr string, P child)) ms) depth fmt
            @ (if fmt then replicate n TAB else []) @ CHR ''}'' # rest)
         = Inr (cJSON_Object ms, rest)"
proof -
  obtain k c es where ms: "ms = (k, c) # es" using assms(4) by (cases ms) auto
  obtain x xs where x: "P c = x # xs" "value_start x" using assms(2)[of k c] ms by auto
  have k: "NUL \<notin> set k" using assms(3)[of k c] ms by simp
  have p1: "parse_value (P c' @ r) = Inr (c', r)" if "(k', c') \<in> set es" "value_end r" for k' c' r
    using assms(1)[of k' c' r] that ms by simp
  have p2: "\<exists>x xs. P c' = x # xs \<and> value_start x" if "(k', c') \<in> set es" for k' c'
    using assms(2)[of k' c'] that ms by simp
  have p3: "NUL \<notin> set k'" if "(k', c') \<in> set es" for k' c'
    using assms(3)[of k' c'] that ms by simp
  define R where "R = (if es \<noteq> [] then '','' else []) @ (if fmt then [NL] else [])
     @ compose_object (map (\<lambda>(string, child). (print_string_ptr string, P child)) es) depth fmt
     @ (if fmt then replicate n TAB else []) @ CHR ''}'' # rest"
  define V where "V = print_string_ptr k @ CHR '':'' # (if fmt then [TAB] else []) @ P c @ R"
  have ve: "value_end R"
    by (cases "es = []") (simp_all add: R_def value_end_sep)
  have pv: "parse_value (P c @ R) = Inr (c, R)" using assms(1)[of k c R] ve ms by simp
  have shape: "CHR ''{'' # (if fmt then [NL] else [])
            @ compose_object (map (\<lambda>(string, child). (print_string_ptr string, P child)) ms) depth fmt
            @ (if fmt then replicate n TAB else []) @ CHR ''}'' # rest
      = CHR ''{'' # ((if fmt then [NL] else []) @ (if fmt then replicate (nat depth) TAB else [])) @ V"
    unfolding ms compose_object_Cons R_def V_def by simp
  have q: "V = QUOTE # (escape_loop k @ QUOTE # CHR '':'' # (if fmt then [TAB] else []) @ P c @ R)"
    by (simp add: V_def print_string_ptr_escape_loop[OF k])
  have sk: "skip (((if fmt then [NL] else []) @ (if fmt then replicate (nat depth) TAB else [])) @ V) = V"
    by (subst skip_blank) (simp_all add: whitespace_only_simps q skip_def QUOTE_def)
  have dv: "deref V \<noteq> CHR ''}''" by (simp add: q QUOTE_def)
  have member: "parse_member V = Inr ((k, c), skip R)"
    using parse_member_text[of k "[]" "if fmt then [TAB] else []" "P c" R c x xs] k pv x
    by (simp add: whitespace_only_simps V_def)
  have loop: "parse_object_loop [(k, c)] (skip R) = Inr (ms, CHR ''}'' # rest)"
  proof (cases "es = []")
    case True
    have "skip R = skip (CHR ''}'' # rest)"
      unfolding R_def using True
      by (simp add: skip_blank[of "[NL]"] skip_blank[of "replicate n TAB"] skip_blank[of "NL # replicate n TAB"]
          whitespace_only_simps flip: append_Cons)
    then show ?thesis using True by (simp add: skip_sep parse_object_loop_end ms)
  next
    case False
    then have "skip R = CHR '','' # (if fmt then [NL] else [])
       @ compose_object (map (\<lambda>(string, child). (print_string_ptr string, P child)) es) depth fmt
       @ (if fmt then replicate n TAB else []) @ CHR ''}'' # rest"
      by (simp add: R_def skip_sep)
    moreover have "parse_object_loop [(k, c)] \<dots> = Inr ([(k, c)] @ es, CHR ''}'' # rest)"
      by (rule parse_object_loop_compose[OF p1 p2 p3 False])
    ultimately show ?thesis by (simp add: ms)
  qed
  have len: "length (skip R) < length (CHR ''{'' # ((if fmt then [NL] else []) @ (if fmt then replicate (nat depth) TAB else [])) @ V)"
    using skip_le[of R] by (simp add: V_def)
  show ?thesis
    unfolding shape
    apply (subst parse_object.simps)
    apply (simp only: deref.simps list.sel Let_def sk dv member len loop simp_thms if_True if_False
        sum.case prod.case)
    done
qed

lemma parse_value_brackets:
  "parse_value (CHR ''['' # X) = parse_array (CHR ''['' # X)"
  "parse_value (CHR ''{'' # X) = parse_object (CHR ''{'' # X)"
  by (subst parse_value.simps, simp add: QUOTE_def is_digit_def)+

lemma parse_print_value:
  assumes "lossless t" and "value_end rest"
  shows "parse_value (print_value t depth fmt @ rest) = Inr (t, rest)"
  using assms
proof (induction t arbitrary: depth rest)
  case (cJSON_Number vi d)
  then show ?case by (simp add: parse_value_number)
next
  case (cJSON_String s)
  then show ?case by (simp add: parse_value_string)
next
  case (cJSON_Array cs)
  show ?case
  proof (cases "cs = []")
    case True
    then show ?thesis using parse_empty_array[of rest] by simp
  next
    case False
    have 1: "parse_value (print_value c (depth + 1) fmt @ r) = Inr (c, r)"
      if "c \<in> set cs" "value_end r" for c r
      using cJSON_Array.IH[OF that(1) _ that(2)] cJSON_Array.prems(1) that(1) by simp
    have 2: "\<exists>x xs. print_value c (depth + 1) fmt = x # xs \<and> value_start x" if "c \<in> set cs" for c
      using print_value_start[of c] cJSON_Array.prems(1) that by simp
    have "parse_array (CHR ''['' # compose_array (map (\<lambda>c. print_value c (depth + 1) fmt) cs) fmt
            @ CHR '']'' # rest) = Inr (cJSON_Array cs, rest)"
      by (rule parse_array_compose[OF 1 2 False])
    then show ?thesis using False by (simp add: parse_value_brackets)
  qed
next
  case (cJSON_Object ms)
  show ?case
  proof (cases "ms = []")
    case True
    have "parse_object (CHR ''{'' # ws @ CHR ''}'' # rest) = Inr (cJSON_Object [], rest)"
      if "whitespace_only ws" for ws
      by (subst parse_object.simps) (simp add: skip_blank[OF that] skip_sep)
    from this[of "if fmt then NL # replicate (nat (depth - 1)) TAB else []"]
    show ?thesis using True
      by (auto simp add: parse_value_brackets whitespace_only_def TAB_def NL_def NUL_def list_all_iff)
  next
    case False
    have 1: "parse_value (print_value c (depth + 1) fmt @ r) = Inr (c, r)"
      if "(k, c) \<in> set ms" "value_end r" for k c r
      using cJSON_Object.IH[OF that(1) _ _ that(2), of c] cJSON_Object.prems(1) that(1) by auto
    have 2: "\<exists>x xs. print_value c (depth + 1) fmt = x # xs \<and> value_start x" if "(k, c) \<in> set ms" for k c
      using print_value_start[of c] cJSON_Object.prems(1) that by auto
    have 3: "NUL \<notin> set k" if "(k, c) \<in> set ms" for k c
      using cJSON_Object.prems(1) that by auto
    have "parse_object
           (CHR ''{'' # (if fmt then [NL] else [])
            @ compose_object (map (\<lambda>(string, child). (print_string_ptr string, print_value child (depth + 1) fmt)) ms)
                (depth + 1) fmt
            @ (if fmt then replicate (nat depth) TAB else []) @ CHR ''}'' # rest)
         = Inr (cJSON_Object ms, rest)"
      by (rule parse_object_compose[OF 1 2 3 False])
    then show ?thesis using False by (cases fmt) (simp_all add: parse_value_brackets Let_def)
  qed
qed (use parse_value_leaf in simp_all)

lemma cJSON_Parse_print_value:
  assumes "lossless t"
  shows "cJSON_Parse (print_value t 0 fmt) = Inr t"
proof -
  obtain x xs where x: "print_value t 0 fmt = x # xs" "value_start x"
    using print_value_start[OF assms] by blast
  have "skip (print_value t 0 fmt) = print_value t 0 fmt"
    using value_start_facts(1)[OF x(2)] x(1) by simp
  moreover have "parse_value (print_value t 0 fmt @ []) = Inr (t, [])"
    by (rule parse_print_value[OF assms]) (simp add: value_end_def)
  ultimately show ?thesis by (simp add: cJSON_Parse_def cJSON_ParseWithOpts_def)
qed

text \<open>
  C1 (as amended). For every tree whose numbers are whole numbers of magnitude below
  \<open>2\<^sup>5\<^sup>3\<close> with \<open>valueint\<close> the conversion of \<open>valuedouble\<close>, and whose strings and
  keys are C strings, parsing the text that serializing prints gives the tree back:
  the same kinds, keys, strings, numbers and order of children, with and without
  formatting.
\<close>

theorem serialize_parse_round_trip:
  assumes "lossless t"
  shows "cJSON_Parse (cJSON_Print t) = Inr t \<and> cJSON_Parse (cJSON_PrintUnformatted t) = Inr t"
  using assms by (simp add: cJSON_Print_def cJSON_PrintUnformatted_def cJSON_Parse_print_value)

theorem serialize_parse_round_trip_witness:
  "lossless sample \<and> cJSON_Parse (cJSON_Print sample) = Inr sample \<and>
   cJSON_Parse (cJSON_PrintUnformatted sample) = Inr sample"
proof -
  have "lossless sample"
    by (simp add: sample_def whole_number_def int_of_double_def NUL_def INT_MIN_def INT_MAX_def)
  then show ?thesis using serialize_parse_round_trip[of sample] by simp
qed

text \<open>
  C1 as stated fails for a number with a fraction: \<^verbatim>\<open>%f\<close> keeps six decimals. The
  node \<^verbatim>\<open>cJSON_CreateNumber(1.0/1024)\<close> makes prints as \<open>0.000977\<close>, which parses
  to another number.
\<close>

theorem serialize_parse_counterexample:
  "cJSON_Print (cJSON_Number 0 (Finite (1 / 1024))) = ''0.000977'' \<and>
   cJSON_Parse (cJSON_Print (cJSON_Number 0 (Finite (1 / 1024))))
   = Inr (cJSON_Number 0 (Finite (2252808620001779 / 2305843009213693952))) \<and>
   cJSON_Parse (cJSON_Print (cJSON_Number 0 (Finite (1 / 1024))))
   \<noteq> Inr (cJSON_Number 0 (Finite (1 / 1024)))"
proof -
  have p: "cJSON_Print (cJSON_Number 0 (Finite (1 / 1024))) = ''0.000977''"
    by (simp add: cJSON_Print_def print_number_sample)
  have "parse_value ''0.000977'' = Inr (cJSON_Number 0 (Finite (2252808620001779 / 2305843009213693952)), [])"
    by (subst parse_value.simps) (simp add: parse_number_sample QUOTE_def is_digit_def)
  then have "cJSON_Parse ''0.000977'' = Inr (cJSON_Number 0 (Finite (2252808620001779 / 2305843009213693952)))"
    by (simp add: cJSON_Parse_def cJSON_ParseWithOpts_def skip_def)
  then show ?thesis by (simp add: p)
qed

section \<open>Properties of the operations on sibling lists\<close>

lemma heap_simps [simp]:
  "node_next (set_next a v h) = (node_next h)(a := v)"
  "node_prev (set_next a v h) = node_prev h"
  "node_child (set_next a v h) = node_child h"
  "node_next (set_prev a v h) = node_next h"
  "node_prev (set_prev a v h) = (node_prev h)(a := v)"
  "node_child (set_prev a v h) = node_child h"
  "node_next (set_child a v h) = node_next h"
  "node_prev (set_child a v h) = node_prev h"
  "node_child (set_child a v h) = (node_child h)(a := v)"
  "node_next (set_string a s h) = node_next h"
  "node_prev (set_string a s h) = node_prev h"
  "node_child (set_string a s h) = node_child h"
  "node_type (set_next a v h) = node_type h"
  "node_type (set_prev a v h) = node_type h"
  "node_type (set_child a v h) = node_type h"
  "node_type (set_string a s h) = node_type h"
  "allocated (set_next a v h) = allocated h"
  "allocated (set_prev a v h) = allocated h"
  "allocated (set_child a v h) = allocated h"
  "allocated (set_string a s h) = allocated h"
  "node_string (set_next a v h) = node_string h"
  "node_string (set_prev a v h) = node_string h"
  "node_string (set_child a v h) = node_string h"
  "node_string (set_string a s h) = (node_string h)(a := s)"
  by (simp_all add: set_next_def set_prev_def set_child_def set_string_def)

lemma seg_cong:
  "(\<And>a. a \<in> set as \<Longrightarrow> node_next h' a = node_next h a \<and> node_prev h' a = node_prev h a)
   \<Longrightarrow> seg h' p cur as e = seg h p cur as e"
  by (induction as arbitrary: p cur) auto




















lemma sibling_list_set_string [simp]:
  "sibling_list (set_string a s h) parent as = sibling_list h parent as"
  by (simp add: sibling_list_def seg_cong[where h' = "set_string a s h" and h = h])

lemma detached_set_string [simp]: "detached (set_string a s h) item = detached h item"
  by (simp add: detached_def)








lemma is_reference_allocated [simp]: "is_reference (h\<lparr>allocated := X\<rparr>) a = is_reference h a"
  by (simp add: is_reference_def)






lemma sibling_list_allocated [simp]:
  "sibling_list (h\<lparr>allocated := X\<rparr>) parent as = sibling_list h parent as"
  by (simp add: sibling_list_def seg_cong[where h' = "h\<lparr>allocated := X\<rparr>" and h = h])












lemma key_index_set_string:
  "a \<notin> set as \<Longrightarrow> key_index (set_string a s h) string as = key_index h string as"
  unfolding key_index_def by (rule arg_cong[where f = length], rule takeWhile_cong) (auto simp: set_string_def)











end
